theory Spec2Isabelle
  imports Main
begin

section \<open>The element type \<open>T\<close>\<close>

text \<open>
  \<open>vector.h\<close> is a template over the element type \<open>T\<close>.  What an instantiation
  \<open>Vector<T>\<close> depends on is collected in a record: the two compile-time traits that
  \<open>CopyMoveNElements\<close> branches on, which values make a constructor throw, the state a
  move leaves its source in (valid but unspecified in C++, so a parameter here), the
  result of value-initialisation \<open>T()\<close>, the size \<open>sizeof(T)\<close> of an element in bytes, and
  the requests that \<open>operator new\<close> refuses with \<open>std::bad_alloc\<close> (a property of the
  environment the instantiation runs in, kept here so that every operation takes one
  parameter).

  Elements are values: a copy of \<open>x\<close> is \<open>x\<close>, a move of \<open>x\<close> yields \<open>x\<close> and leaves
  \<open>moved_from T x\<close> behind.  Constructors and \<open>operator new\<close> may throw.  Assignment
  operators and destructors of \<open>T\<close> do not throw in this model: \<open>Erase\<close> and \<open>PopBack\<close>
  of the source rely on it, and no statement below speaks of an exception that leaves
  an assignment.
\<close>

record 'a traits =
  nothrow_move_constructible :: bool
  copy_constructible :: bool
  copy_throws :: "'a \<Rightarrow> bool"
  move_throws :: "'a \<Rightarrow> bool"
  moved_from :: "'a \<Rightarrow> 'a"
  value_init :: "'a option"
  size_of :: nat
  new_fails :: "nat \<Rightarrow> bool"

text \<open>\<open>T(const T&)\<close>: \<open>None\<close> when the copy constructor throws.\<close>

definition copy_construct :: "'a traits \<Rightarrow> 'a \<Rightarrow> 'a option" where
  "copy_construct T x = (if copy_throws T x then None else Some x)"

text \<open>\<open>T(T&&)\<close>: a \<open>noexcept\<close> move constructor never lets an exception out.\<close>

definition move_construct :: "'a traits \<Rightarrow> 'a \<Rightarrow> 'a option" where
  "move_construct T x =
     (if \<not> nothrow_move_constructible T \<and> move_throws T x then None else Some x)"

section \<open>Outcomes\<close>

text \<open>
  An operation either returns, or leaves by an exception (\<open>Thrown\<close>), or fails an
  \<open>assert\<close>, or has undefined behaviour (reading a slot that holds no object, touching
  memory outside the allocation, an iterator outside the vector).  Each of the three
  carries a state: the one the exception leaves behind, and the one reached at the
  moment the assertion fails or the behaviour becomes undefined.
\<close>

datatype 's fault = Thrown 's | Undefined 's | Assertion_Failed 's

fun state_of :: "'s fault \<Rightarrow> 's" where
  "state_of (Thrown s) = s"
| "state_of (Undefined s) = s"
| "state_of (Assertion_Failed s) = s"

section \<open>Raw storage\<close>

text \<open>
  An allocation is a list of slots; a slot is \<open>None\<close> while it is uninitialised (or after
  its object has been destroyed) and \<open>Some x\<close> while it holds a live object of value \<open>x\<close>.
  \<open>RawMemory\<close> owns its allocation exclusively (its copy operations are deleted), so the
  allocation is identified with its content.

  \<open>Allocate(n)\<close> asks \<open>operator new\<close> for \<open>n * sizeof(T)\<close> bytes, a product taken in
  \<open>size_t\<close> (64 bits): it wraps, and the allocation then has room for fewer than \<open>n\<close>
  elements while \<open>capacity_\<close> records \<open>n\<close>.  \<open>operator new\<close> throws \<open>std::bad_alloc\<close>
  (\<open>None\<close>) when it refuses the request; a granted request of 0 bytes is a block without
  slots.  The doubling \<open>size_ * 2\<close> of line 215 wraps in the same way.  The remaining
  arithmetic (\<open>++size_\<close>, \<open>--size_\<close>, \<open>offset + 1\<close>, differences of lengths) is on
  \<open>nat\<close>: a length never exceeds the number of slots of an allocation, which is below
  \<open>2 ^ 64\<close>.

  The members \<open>buffer_\<close>, \<open>capacity_\<close>, \<open>data_\<close> and \<open>size_\<close> of the source are
  \<open>buffer_m\<close>, \<open>capacity_m\<close>, \<open>data_m\<close> and \<open>size_m\<close> here.  The \<open>assert\<close>s of
  \<open>RawMemory::operator+\<close> and \<open>RawMemory::operator[]\<close> are written out where the vector
  uses these operators.
\<close>

type_synonym 'a block = "'a option list"

definition slot :: "'a block \<Rightarrow> nat \<Rightarrow> 'a option" where
  "slot b i = (if i < length b then b ! i else None)"

record 'a RawMemory =
  buffer_m :: "'a block"
  capacity_m :: nat

definition Allocate :: "'a traits \<Rightarrow> nat \<Rightarrow> 'a block option" where
  "Allocate T n =
     (if n \<noteq> 0 then
        (let bytes = (n * size_of T) mod 2 ^ 64 in
         if new_fails T bytes then None
         else Some (replicate (bytes div size_of T) None))
      else Some [])"

definition RawMemory_default :: "'a RawMemory" where
  "RawMemory_default = \<lparr>buffer_m = [], capacity_m = 0\<rparr>"

definition RawMemory_sized :: "'a traits \<Rightarrow> nat \<Rightarrow> 'a RawMemory option" where
  "RawMemory_sized T capacity =
     (case Allocate T capacity of
        None \<Rightarrow> None
      | Some b \<Rightarrow> Some \<lparr>buffer_m = b, capacity_m = capacity\<rparr>)"

definition RawMemory_Swap :: "'a RawMemory \<Rightarrow> 'a RawMemory \<Rightarrow> 'a RawMemory \<times> 'a RawMemory" where
  "RawMemory_Swap this other =
     (this\<lparr>buffer_m := buffer_m other, capacity_m := capacity_m other\<rparr>,
      other\<lparr>buffer_m := buffer_m this, capacity_m := capacity_m this\<rparr>)"

section \<open>The standard algorithms the vector calls\<close>

text \<open>
  A range is given by a block and the index of its first slot.  Destroying ends the
  lifetime of the object in a slot; where there is no object to destroy the behaviour is
  undefined (\<open>None\<close>; the caller names the state).
\<close>

definition destroy_at :: "'a block \<Rightarrow> nat \<Rightarrow> 'a block option" where
  "destroy_at b i = (case slot b i of None \<Rightarrow> None | Some _ \<Rightarrow> Some (b[i := None]))"

fun destroy_n :: "'a block \<Rightarrow> nat \<Rightarrow> nat \<Rightarrow> 'a block option" where
  "destroy_n b i 0 = Some b"
| "destroy_n b i (Suc n) =
     (case destroy_at b i of None \<Rightarrow> None | Some b' \<Rightarrow> destroy_n b' (Suc i) n)"

text \<open>
  The \<open>uninitialized_*\<close> algorithms construct into raw slots one by one; when a constructor
  throws they destroy what they have constructed so far (the slot \<open>i\<close> or \<open>j\<close> written just
  before, which is inside the block) and rethrow.
\<close>

fun uninitialized_value_construct_n ::
  "'a traits \<Rightarrow> 'a block \<Rightarrow> nat \<Rightarrow> nat \<Rightarrow> 'a block fault + 'a block" where
  "uninitialized_value_construct_n T b i 0 = Inr b"
| "uninitialized_value_construct_n T b i (Suc n) =
     (if length b \<le> i then Inl (Undefined b)
      else case value_init T of
        None \<Rightarrow> Inl (Thrown b)
      | Some d \<Rightarrow>
          (case uninitialized_value_construct_n T (b[i := Some d]) (Suc i) n of
             Inl (Thrown b') \<Rightarrow> Inl (Thrown (b'[i := None]))
           | Inl f \<Rightarrow> Inl f
           | Inr b' \<Rightarrow> Inr b'))"

fun uninitialized_copy_n ::
  "'a traits \<Rightarrow> 'a block \<Rightarrow> nat \<Rightarrow> nat \<Rightarrow> 'a block \<Rightarrow> nat \<Rightarrow> 'a block fault + 'a block" where
  "uninitialized_copy_n T src i 0 dst j = Inr dst"
| "uninitialized_copy_n T src i (Suc n) dst j =
     (case slot src i of
        None \<Rightarrow> Inl (Undefined dst)
      | Some x \<Rightarrow>
          if length dst \<le> j then Inl (Undefined dst)
          else (case copy_construct T x of
             None \<Rightarrow> Inl (Thrown dst)
           | Some y \<Rightarrow>
               (case uninitialized_copy_n T src (Suc i) n (dst[j := Some y]) (Suc j) of
                  Inl (Thrown dst') \<Rightarrow> Inl (Thrown (dst'[j := None]))
                | Inl f \<Rightarrow> Inl f
                | Inr dst' \<Rightarrow> Inr dst')))"

text \<open>Moving changes the source range too, so both blocks are returned.\<close>

fun uninitialized_move_n ::
  "'a traits \<Rightarrow> 'a block \<Rightarrow> nat \<Rightarrow> nat \<Rightarrow> 'a block \<Rightarrow> nat \<Rightarrow>
     ('a block \<times> 'a block) fault + ('a block \<times> 'a block)" where
  "uninitialized_move_n T src i 0 dst j = Inr (src, dst)"
| "uninitialized_move_n T src i (Suc n) dst j =
     (case slot src i of
        None \<Rightarrow> Inl (Undefined (src, dst))
      | Some x \<Rightarrow>
          if length dst \<le> j then Inl (Undefined (src, dst))
          else (case move_construct T x of
             None \<Rightarrow> Inl (Thrown (src, dst))
           | Some y \<Rightarrow>
               (case uninitialized_move_n T (src[i := Some (moved_from T x)]) (Suc i) n
                       (dst[j := Some y]) (Suc j) of
                  Inl (Thrown (src', dst')) \<Rightarrow> Inl (Thrown (src', dst'[j := None]))
                | Inl f \<Rightarrow> Inl f
                | Inr r \<Rightarrow> Inr r)))"

text \<open>
  \<open>std::copy_n\<close> and \<open>std::copy\<close> copy-assign: the target slot must already hold an
  object.
\<close>

fun copy_n :: "'a block \<Rightarrow> nat \<Rightarrow> nat \<Rightarrow> 'a block \<Rightarrow> nat \<Rightarrow> 'a block fault + 'a block" where
  "copy_n src i 0 dst j = Inr dst"
| "copy_n src i (Suc n) dst j =
     (case (slot src i, slot dst j) of
        (Some x, Some _) \<Rightarrow> copy_n src (Suc i) n (dst[j := Some x]) (Suc j)
      | _ \<Rightarrow> Inl (Undefined dst))"

definition std_copy ::
  "'a block \<Rightarrow> nat \<Rightarrow> nat \<Rightarrow> 'a block \<Rightarrow> nat \<Rightarrow> 'a block fault + 'a block" where
  "std_copy src first_i last_i dst d_first =
     (if last_i < first_i then Inl (Undefined dst)
      else copy_n src first_i (last_i - first_i) dst d_first)"

text \<open>
  \<open>std::move(first, last, d_first)\<close> and \<open>std::move_backward(first, last, d_last)\<close>
  move-assign inside one block; the first returns the end of the target range.
\<close>

function std_move ::
  "'a traits \<Rightarrow> 'a block \<Rightarrow> nat \<Rightarrow> nat \<Rightarrow> nat \<Rightarrow> 'a block fault + ('a block \<times> nat)" where
  "std_move T b first_i last_i d_first =
     (if last_i < first_i then Inl (Undefined b)
      else if first_i = last_i then Inr (b, d_first)
      else (case (slot b first_i, slot b d_first) of
         (Some x, Some _) \<Rightarrow>
            std_move T (b[first_i := Some (moved_from T x), d_first := Some x])
              (Suc first_i) last_i (Suc d_first)
       | _ \<Rightarrow> Inl (Undefined b)))"
  by pat_completeness auto
termination
  by (relation "measure (\<lambda>(T, b, first_i, last_i, d_first). last_i - first_i)") auto

function move_backward ::
  "'a traits \<Rightarrow> 'a block \<Rightarrow> nat \<Rightarrow> nat \<Rightarrow> nat \<Rightarrow> 'a block fault + 'a block" where
  "move_backward T b first_i last_i d_last =
     (if last_i < first_i then Inl (Undefined b)
      else if first_i = last_i then Inr b
      else if d_last = 0 then Inl (Undefined b)
      else (case (slot b (last_i - 1), slot b (d_last - 1)) of
         (Some x, Some _) \<Rightarrow>
            move_backward T (b[last_i - 1 := Some (moved_from T x), d_last - 1 := Some x])
              first_i (last_i - 1) (d_last - 1)
       | _ \<Rightarrow> Inl (Undefined b)))"
  by pat_completeness auto
termination
  by (relation "measure (\<lambda>(T, b, first_i, last_i, d_last). last_i - first_i)") auto

declare std_move.simps [simp del]
declare move_backward.simps [simp del]


section \<open>The vector\<close>

text \<open>
  The constructors are \<open>Vector_default\<close>, \<open>Vector_sized\<close>, \<open>Vector_copy\<close> and
  \<open>Vector_move\<close>, the two assignment operators \<open>copy_assign\<close> and \<open>move_assign\<close>; the
  member functions keep their names.  A member function takes the vector and returns the
  vector it leaves behind, together with its result if it has one.
\<close>

record 'a Vector =
  data_m :: "'a RawMemory"
  size_m :: nat

definition Size :: "'a Vector \<Rightarrow> nat" where
  "Size v = size_m v"

definition Capacity :: "'a Vector \<Rightarrow> nat" where
  "Capacity v = capacity_m (data_m v)"

text \<open>The slots behind \<open>data_.GetAddress()\<close>, and the vector with these slots rewritten.\<close>

definition slots :: "'a Vector \<Rightarrow> 'a block" where
  "slots v = buffer_m (data_m v)"

definition with_slots :: "'a block \<Rightarrow> 'a Vector \<Rightarrow> 'a Vector" where
  "with_slots b v = v\<lparr>data_m := (data_m v)\<lparr>buffer_m := b\<rparr>\<rparr>"

text \<open>\<open>operator[]\<close>, with its \<open>assert\<close>s on the size and on the capacity.\<close>

definition at_index :: "'a Vector \<Rightarrow> nat \<Rightarrow> unit fault + 'a" where
  "at_index v index =
     (if \<not> index < size_m v then Inl (Assertion_Failed ())
      else if \<not> index < capacity_m (data_m v) then Inl (Assertion_Failed ())
      else case slot (slots v) index of None \<Rightarrow> Inl (Undefined ()) | Some x \<Rightarrow> Inr x)"

subsection \<open>Construction\<close>

definition Vector_default :: "'a Vector" where
  "Vector_default = \<lparr>data_m = RawMemory_default, size_m = 0\<rparr>"

text \<open>
  A constructor that does not return leaves no object behind: its fault carries nothing
  (the \<open>RawMemory\<close> member releases the allocation).
\<close>

definition Vector_sized :: "'a traits \<Rightarrow> nat \<Rightarrow> unit fault + 'a Vector" where
  "Vector_sized T n =
     (case RawMemory_sized T n of
        None \<Rightarrow> Inl (Thrown ())
      | Some data \<Rightarrow>
          (case uninitialized_value_construct_n T (buffer_m data) 0 n of
             Inl f \<Rightarrow> Inl (map_fault (\<lambda>_. ()) f)
           | Inr b \<Rightarrow> Inr \<lparr>data_m = data\<lparr>buffer_m := b\<rparr>, size_m = n\<rparr>))"

definition Vector_copy :: "'a traits \<Rightarrow> 'a Vector \<Rightarrow> unit fault + 'a Vector" where
  "Vector_copy T other =
     (case RawMemory_sized T (size_m other) of
        None \<Rightarrow> Inl (Thrown ())
      | Some data \<Rightarrow>
          (case uninitialized_copy_n T (slots other) 0 (size_m other) (buffer_m data) 0 of
             Inl f \<Rightarrow> Inl (map_fault (\<lambda>_. ()) f)
           | Inr b \<Rightarrow> Inr \<lparr>data_m = data\<lparr>buffer_m := b\<rparr>, size_m = size_m other\<rparr>))"

text \<open>
  The destructor destroys the elements; the \<open>RawMemory\<close> member then releases the
  allocation, whose slots are returned.
\<close>

definition Vector_destroy :: "'a Vector \<Rightarrow> 'a block option" where
  "Vector_destroy v = destroy_n (slots v) 0 (size_m v)"

text \<open>\<open>Swap\<close> returns the two vectors, \<open>*this\<close> first.\<close>

definition Swap :: "'a Vector \<Rightarrow> 'a Vector \<Rightarrow> 'a Vector \<times> 'a Vector" where
  "Swap this other =
     (let (d, d') = RawMemory_Swap (data_m this) (data_m other)
      in (this\<lparr>data_m := d, size_m := size_m other\<rparr>,
          other\<lparr>data_m := d', size_m := size_m this\<rparr>))"

text \<open>
  The move constructor: the members of \<open>*this\<close> take their default initialisers, then
  \<open>Swap(other)\<close>.  The result is the new vector and what is left of \<open>other\<close>.
\<close>

definition Vector_move :: "'a Vector \<Rightarrow> 'a Vector \<times> 'a Vector" where
  "Vector_move other = Swap Vector_default other"

subsection \<open>Assignment\<close>

text \<open>
  Copy assignment for \<open>this != &rhs\<close>.  In the reallocating branch the local \<open>rhs_copy\<close>
  holds the old content after the \<open>Swap\<close> and is destroyed at the end of the block.
  Line 128 of the source passes \<open>begin() + size_\<close>, a slot of the target itself, as the
  source range of \<open>uninitialized_copy_n\<close>; the model does the same.
\<close>

definition copy_assign :: "'a traits \<Rightarrow> 'a Vector \<Rightarrow> 'a Vector \<Rightarrow> 'a Vector fault + 'a Vector" where
  "copy_assign T this rhs =
     (if size_m rhs > capacity_m (data_m this) then
        (case Vector_copy T rhs of
           Inl f \<Rightarrow> Inl (map_fault (\<lambda>_. this) f)
         | Inr rhs_copy \<Rightarrow>
             (let (this', rhs_copy') = Swap this rhs_copy in
              case Vector_destroy rhs_copy' of
                None \<Rightarrow> Inl (Undefined this')
              | Some _ \<Rightarrow> Inr this'))
      else if size_m rhs < size_m this then
        (case std_copy (slots rhs) 0 (size_m rhs) (slots this) 0 of
           Inl f \<Rightarrow> Inl (map_fault (\<lambda>b. with_slots b this) f)
         | Inr b \<Rightarrow>
             (case destroy_n b (size_m rhs) (size_m this - size_m rhs) of
                None \<Rightarrow> Inl (Undefined (with_slots b this))
              | Some b' \<Rightarrow> Inr ((with_slots b' this)\<lparr>size_m := size_m rhs\<rparr>)))
      else
        (case copy_n (slots rhs) 0 (size_m this) (slots this) 0 of
           Inl f \<Rightarrow> Inl (map_fault (\<lambda>b. with_slots b this) f)
         | Inr b \<Rightarrow>
             (case uninitialized_copy_n T b (size_m this) (size_m rhs - size_m this)
                     b (size_m this) of
                Inl f \<Rightarrow> Inl (map_fault (\<lambda>b'. with_slots b' this) f)
              | Inr b' \<Rightarrow> Inr ((with_slots b' this)\<lparr>size_m := size_m rhs\<rparr>))))"

text \<open>Copy assignment for \<open>this == &rhs\<close>: nothing happens.\<close>

definition copy_assign_self :: "'a Vector \<Rightarrow> 'a Vector fault + 'a Vector" where
  "copy_assign_self this = Inr this"

text \<open>Move assignment returns \<open>*this\<close> and what is left of \<open>rhs\<close>.\<close>

definition move_assign :: "'a Vector \<Rightarrow> 'a Vector \<Rightarrow> 'a Vector \<times> 'a Vector" where
  "move_assign this rhs = Swap this rhs"

subsection \<open>Capacity and size\<close>

definition CopyMoveNElements ::
  "'a traits \<Rightarrow> 'a block \<Rightarrow> nat \<Rightarrow> nat \<Rightarrow> 'a block \<Rightarrow> nat \<Rightarrow>
     ('a block \<times> 'a block) fault + ('a block \<times> 'a block)" where
  "CopyMoveNElements T src first_i count dst first_d =
     (if nothrow_move_constructible T \<or> \<not> copy_constructible T
      then uninitialized_move_n T src first_i count dst first_d
      else (case uninitialized_copy_n T src first_i count dst first_d of
              Inl f \<Rightarrow> Inl (map_fault (Pair src) f)
            | Inr dst' \<Rightarrow> Inr (src, dst')))"

definition Reserve :: "'a traits \<Rightarrow> nat \<Rightarrow> 'a Vector \<Rightarrow> 'a Vector fault + 'a Vector" where
  "Reserve T new_capacity v =
     (if new_capacity \<le> capacity_m (data_m v) then Inr v
      else
        (case RawMemory_sized T new_capacity of
           None \<Rightarrow> Inl (Thrown v)
         | Some new_data \<Rightarrow>
             (case CopyMoveNElements T (slots v) 0 (size_m v) (buffer_m new_data) 0 of
                Inl f \<Rightarrow> Inl (map_fault (\<lambda>(old, new). with_slots old v) f)
              | Inr (old, new) \<Rightarrow>
                  (case destroy_n old 0 (size_m v) of
                     None \<Rightarrow> Inl (Undefined (with_slots old v))
                   | Some old' \<Rightarrow>
                       (let (d, d') = RawMemory_Swap ((data_m v)\<lparr>buffer_m := old'\<rparr>)
                                        (new_data\<lparr>buffer_m := new\<rparr>)
                        in Inr (v\<lparr>data_m := d\<rparr>))))))"

definition Resize :: "'a traits \<Rightarrow> nat \<Rightarrow> 'a Vector \<Rightarrow> 'a Vector fault + 'a Vector" where
  "Resize T new_size v =
     (if size_m v = new_size then Inr v
      else if new_size < size_m v then
        (case destroy_n (slots v) new_size (size_m v - new_size) of
           None \<Rightarrow> Inl (Undefined v)
         | Some b \<Rightarrow> Inr ((with_slots b v)\<lparr>size_m := new_size\<rparr>))
      else
        (case Reserve T new_size v of
           Inl f \<Rightarrow> Inl f
         | Inr v' \<Rightarrow>
             (case uninitialized_value_construct_n T (slots v') (size_m v')
                     (new_size - size_m v') of
                Inl f \<Rightarrow> Inl (map_fault (\<lambda>b. with_slots b v') f)
              | Inr b \<Rightarrow> Inr ((with_slots b v')\<lparr>size_m := new_size\<rparr>))))"

subsection \<open>Insertion\<close>

text \<open>
  \<open>Emplace(pos, args...)\<close>.  The position is given by its offset \<open>pos - begin()\<close>; the
  arguments by what \<open>T{args...}\<close> makes of them, \<open>None\<close> when that constructor throws.
  An iterator outside \<open>[begin(), end()]\<close> is undefined behaviour.

  \<open>Emplace_fill\<close> is lines 217 to 235 of the source, the work on the new block before
  anything is committed: it returns the old and the new slots, also when it throws, where
  the new slots are what \<open>new_data\<close> holds when its destructor releases the allocation.
\<close>

definition Emplace_fill ::
  "'a traits \<Rightarrow> nat \<Rightarrow> 'a option \<Rightarrow> 'a block \<Rightarrow> nat \<Rightarrow> 'a RawMemory \<Rightarrow>
     ('a block \<times> 'a block) fault + ('a block \<times> 'a block)" where
  "Emplace_fill T offset args old sz new_data =
     (if \<not> offset \<le> capacity_m new_data then Inl (Assertion_Failed (old, buffer_m new_data))
      else case args of
        None \<Rightarrow> Inl (Thrown (old, buffer_m new_data))
      | Some x \<Rightarrow>
          if length (buffer_m new_data) \<le> offset then Inl (Undefined (old, buffer_m new_data))
          else
            (case CopyMoveNElements T old 0 offset ((buffer_m new_data)[offset := Some x]) 0 of
               Inl (Thrown (old', new)) \<Rightarrow>
                 (case destroy_at new offset of
                    None \<Rightarrow> Inl (Undefined (old', new))
                  | Some new' \<Rightarrow> Inl (Thrown (old', new')))
             | Inl f \<Rightarrow> Inl f
             | Inr (old', new) \<Rightarrow>
                 if offset \<noteq> sz then
                   (case CopyMoveNElements T old' offset (sz - offset) new (offset + 1) of
                      Inl (Thrown (old'', new')) \<Rightarrow>
                        (case destroy_n new' 0 (offset + 1) of
                           None \<Rightarrow> Inl (Undefined (old'', new'))
                         | Some new'' \<Rightarrow> Inl (Thrown (old'', new'')))
                    | Inl f \<Rightarrow> Inl f
                    | Inr r \<Rightarrow> Inr r)
                 else Inr (old', new)))"

definition Emplace ::
  "'a traits \<Rightarrow> nat \<Rightarrow> 'a option \<Rightarrow> 'a Vector \<Rightarrow> 'a Vector fault + ('a Vector \<times> nat)" where
  "Emplace T offset args v =
     (if size_m v < offset then Inl (Undefined v)
      else if size_m v = Capacity v then
        (let new_capacity = (if size_m v = 0 then 1 else (size_m v * 2) mod 2 ^ 64) in
         case RawMemory_sized T new_capacity of
           None \<Rightarrow> Inl (Thrown v)
         | Some new_data \<Rightarrow>
             (case Emplace_fill T offset args (slots v) (size_m v) new_data of
                Inl f \<Rightarrow> Inl (map_fault (\<lambda>(old, new). with_slots old v) f)
              | Inr (old, new) \<Rightarrow>
                  (case destroy_n old 0 (size_m v) of
                     None \<Rightarrow> Inl (Undefined (with_slots old v))
                   | Some old' \<Rightarrow>
                       (let (d, d') = RawMemory_Swap ((data_m v)\<lparr>buffer_m := old'\<rparr>)
                                        (new_data\<lparr>buffer_m := new\<rparr>)
                        in Inr (v\<lparr>data_m := d, size_m := size_m v + 1\<rparr>, offset)))))
      else if offset = size_m v then
        (case args of
           None \<Rightarrow> Inl (Thrown v)
         | Some x \<Rightarrow>
             if length (slots v) \<le> size_m v then Inl (Undefined v)
             else Inr ((with_slots ((slots v)[size_m v := Some x]) v)
                         \<lparr>size_m := size_m v + 1\<rparr>, offset))
      else
        (case args of
           None \<Rightarrow> Inl (Thrown v)
         | Some t \<Rightarrow>
             (case slot (slots v) (size_m v - 1) of
                None \<Rightarrow> Inl (Undefined v)
              | Some l \<Rightarrow>
                  if length (slots v) \<le> size_m v then Inl (Undefined v)
                  else (case move_construct T l of
                     None \<Rightarrow> Inl (Thrown v)
                   | Some y \<Rightarrow>
                       (case move_backward T
                               ((slots v)[size_m v - 1 := Some (moved_from T l),
                                          size_m v := Some y])
                               offset (size_m v - 1) (size_m v) of
                          Inl f \<Rightarrow> Inl (map_fault (\<lambda>b. with_slots b v) f)
                        | Inr b \<Rightarrow>
                            if \<not> offset < capacity_m (data_m v)
                            then Inl (Assertion_Failed (with_slots b v))
                            else (case slot b offset of
                               None \<Rightarrow> Inl (Undefined (with_slots b v))
                             | Some _ \<Rightarrow>
                                 Inr ((with_slots (b[offset := Some t]) v)
                                        \<lparr>size_m := size_m v + 1\<rparr>, offset)))))))"

text \<open>\<open>EmplaceBack\<close> returns a reference to the new element: the vector and its index.\<close>

definition EmplaceBack ::
  "'a traits \<Rightarrow> 'a option \<Rightarrow> 'a Vector \<Rightarrow> 'a Vector fault + ('a Vector \<times> nat)" where
  "EmplaceBack T args v = Emplace T (size_m v) args v"

text \<open>\<open>PushBack(const T&)\<close> copy-constructs the new element, \<open>PushBack(T&&)\<close> moves it.\<close>

definition PushBack :: "'a traits \<Rightarrow> 'a \<Rightarrow> 'a Vector \<Rightarrow> 'a Vector fault + 'a Vector" where
  "PushBack T val v = map_sum id fst (EmplaceBack T (copy_construct T val) v)"

definition PushBack_rvalue :: "'a traits \<Rightarrow> 'a \<Rightarrow> 'a Vector \<Rightarrow> 'a Vector fault + 'a Vector" where
  "PushBack_rvalue T val v = map_sum id fst (EmplaceBack T (move_construct T val) v)"

definition Insert ::
  "'a traits \<Rightarrow> nat \<Rightarrow> 'a \<Rightarrow> 'a Vector \<Rightarrow> 'a Vector fault + ('a Vector \<times> nat)" where
  "Insert T pos val v = Emplace T pos (copy_construct T val) v"

definition Insert_rvalue ::
  "'a traits \<Rightarrow> nat \<Rightarrow> 'a \<Rightarrow> 'a Vector \<Rightarrow> 'a Vector fault + ('a Vector \<times> nat)" where
  "Insert_rvalue T pos val v = Emplace T pos (move_construct T val) v"

subsection \<open>Removal\<close>

text \<open>
  \<open>Erase(pos)\<close>, the position given by its offset; it returns the vector and the offset of
  the returned iterator.
\<close>

definition Erase ::
  "'a traits \<Rightarrow> nat \<Rightarrow> 'a Vector \<Rightarrow> 'a Vector fault + ('a Vector \<times> nat)" where
  "Erase T pos v =
     (if pos = size_m v then Inl (Assertion_Failed v)
      else if size_m v < pos then Inl (Undefined v)
      else
        (case std_move T (slots v) (pos + 1) (size_m v) pos of
           Inl f \<Rightarrow> Inl (map_fault (\<lambda>b. with_slots b v) f)
         | Inr (b, element_to_del) \<Rightarrow>
             (case destroy_at b element_to_del of
                None \<Rightarrow> Inl (Undefined (with_slots b v))
              | Some b' \<Rightarrow> Inr ((with_slots b' v)\<lparr>size_m := size_m v - 1\<rparr>, pos))))"

definition PopBack :: "'a Vector \<Rightarrow> 'a Vector fault + 'a Vector" where
  "PopBack v =
     (if \<not> size_m v > 0 then Inl (Assertion_Failed v)
      else if \<not> size_m v - 1 < capacity_m (data_m v) then Inl (Assertion_Failed v)
      else (case destroy_at (slots v) (size_m v - 1) of
         None \<Rightarrow> Inl (Undefined v)
       | Some b \<Rightarrow> Inr ((with_slots b v)\<lparr>size_m := size_m v - 1\<rparr>)))"

section \<open>The representation invariant\<close>

text \<open>
  \<open>0 \<le> length \<le> capacity\<close>, the live objects are exactly the slots \<open>[0, length)\<close>, and the
  recorded capacity is the size of the allocation.
\<close>

definition vector_inv :: "'a Vector \<Rightarrow> bool" where
  "vector_inv v \<longleftrightarrow>
     capacity_m (data_m v) = length (slots v) \<and>
     size_m v \<le> capacity_m (data_m v) \<and>
     list_all (\<lambda>c. c \<noteq> None) (take (size_m v) (slots v)) \<and>
     list_all (\<lambda>c. c = None) (drop (size_m v) (slots v))"

text \<open>The element values of a vector, in order.\<close>

definition elements :: "'a Vector \<Rightarrow> 'a list" where
  "elements v = map the (take (size_m v) (slots v))"

text \<open>The vector with elements \<open>xs\<close> in an allocation of \<open>c\<close> slots.\<close>

definition block_of :: "'a list \<Rightarrow> nat \<Rightarrow> 'a block" where
  "block_of xs c = map Some xs @ replicate (c - length xs) None"

definition vector_of :: "'a list \<Rightarrow> nat \<Rightarrow> 'a Vector" where
  "vector_of xs c = \<lparr>data_m = \<lparr>buffer_m = block_of xs c, capacity_m = c\<rparr>, size_m = length xs\<rparr>"

section \<open>Outcomes of an operation\<close>

text \<open>
  The vector an operation leaves behind, whatever its outcome: the vector returned, the
  one an exception leaves, and the one reached when an assertion fails or the behaviour
  becomes undefined.
\<close>

definition left_by :: "'a Vector fault + 'a Vector \<Rightarrow> 'a Vector" where
  "left_by r = (case r of Inr v \<Rightarrow> v | Inl f \<Rightarrow> state_of f)"

text \<open>
  The operation returns or leaves by an exception (no assertion fails and the behaviour
  is defined), and the vector it leaves behind has the property \<open>P\<close>.
\<close>

definition returns_or_throws :: "('a Vector \<Rightarrow> bool) \<Rightarrow> 'a Vector fault + 'a Vector \<Rightarrow> bool" where
  "returns_or_throws P r =
     (case r of Inr v \<Rightarrow> P v | Inl (Thrown v) \<Rightarrow> P v | Inl _ \<Rightarrow> False)"

text \<open>An element type none of whose constructors throws.\<close>

definition nothrow :: "'a traits \<Rightarrow> bool" where
  "nothrow T \<longleftrightarrow> (\<forall>x. \<not> copy_throws T x) \<and> (\<forall>x. \<not> move_throws T x \<or> nothrow_move_constructible T)"

section \<open>Sizes and the allocator\<close>

text \<open>The byte size of \<open>n\<close> elements does not wrap in \<open>size_t\<close>.\<close>

definition fits :: "'a traits \<Rightarrow> nat \<Rightarrow> bool" where
  "fits T n \<longleftrightarrow> 0 < size_of T \<and> n * size_of T < 2 ^ 64"

text \<open>
  \<open>Allocate(n)\<close> yields room for \<open>n\<close> elements: nothing is requested, or the byte size
  does not wrap and \<open>operator new\<close> grants it.
\<close>

definition allocates :: "'a traits \<Rightarrow> nat \<Rightarrow> bool" where
  "allocates T n \<longleftrightarrow> n = 0 \<or> fits T n \<and> \<not> new_fails T (n * size_of T)"


text \<open>
  The capacity after one insertion into a vector of length \<open>n\<close> and capacity \<open>c\<close>, as
  line 215 of the source computes it.
\<close>

definition next_capacity :: "nat \<Rightarrow> nat \<Rightarrow> nat" where
  "next_capacity n c = (if n = c then (if n = 0 then 1 else n * 2) else c)"

text \<open>
  An insertion into \<open>v\<close> that has to grow the storage gets its allocation (and the
  doubled capacity then fits \<open>size_t\<close>).
\<close>

definition can_grow :: "'a traits \<Rightarrow> 'a Vector \<Rightarrow> bool" where
  "can_grow T v \<longleftrightarrow>
     (Size v = Capacity v \<longrightarrow> allocates T (if Size v = 0 then 1 else Size v * 2))"

text \<open>A sequence of \<open>PushBack\<close> calls, one for each value of a list, in order.\<close>

fun PushBack_all :: "'a traits \<Rightarrow> 'a list \<Rightarrow> 'a Vector \<Rightarrow> 'a Vector fault + 'a Vector" where
  "PushBack_all T [] v = Inr v"
| "PushBack_all T (x # xs) v =
     (case PushBack T x v of Inl f \<Rightarrow> Inl f | Inr v' \<Rightarrow> PushBack_all T xs v')"

text \<open>The capacity after \<open>n\<close> appends to an empty vector.\<close>

fun capacity_after :: "nat \<Rightarrow> nat" where
  "capacity_after 0 = 0"
| "capacity_after (Suc n) = next_capacity n (capacity_after n)"

section \<open>Three instantiations\<close>

text \<open>
  \<open>int\<close>: trivially copyable, four bytes, nothing throws, a moved-from \<open>int\<close> keeps its
  value.  In the three instantiations \<open>operator new\<close> grants every request.
\<close>

definition int_traits :: "int traits" where
  "int_traits =
     \<lparr>nothrow_move_constructible = True, copy_constructible = True,
      copy_throws = (\<lambda>_. False), move_throws = (\<lambda>_. False),
      moved_from = (\<lambda>x. x), value_init = Some 0,
      size_of = 4, new_fails = (\<lambda>_. False)\<rparr>"

text \<open>
  A class wrapping an \<open>int\<close> whose copy constructor throws on the value 13 and whose move
  constructor is not \<open>noexcept\<close>, so that relocation copies; a moved-from object holds 0.
\<close>

definition throwing_traits :: "int traits" where
  "throwing_traits =
     \<lparr>nothrow_move_constructible = False, copy_constructible = True,
      copy_throws = (\<lambda>x. x = 13), move_throws = (\<lambda>_. False),
      moved_from = (\<lambda>_. 0), value_init = Some 0,
      size_of = 4, new_fails = (\<lambda>_. False)\<rparr>"

text \<open>
  A move-only class wrapping an \<open>int\<close> (no copy constructor) whose move constructor is not
  \<open>noexcept\<close> and throws on the value 13; a moved-from object holds 0.
\<close>

definition move_only_traits :: "int traits" where
  "move_only_traits =
     \<lparr>nothrow_move_constructible = False, copy_constructible = False,
      copy_throws = (\<lambda>_. False), move_throws = (\<lambda>x. x = 13),
      moved_from = (\<lambda>_. 0), value_init = Some 0,
      size_of = 4, new_fails = (\<lambda>_. False)\<rparr>"

section \<open>Properties of the standard algorithms\<close>

lemma slot_update: "slot (b[i := c]) k = (if k = i \<and> i < length b then c else slot b k)"
  by (auto simp: slot_def)

lemma destroy_at_live:
  "slot b i \<noteq> None \<Longrightarrow> destroy_at b i = Some (b[i := None])"
  by (auto simp: destroy_at_def)

lemma destroy_n_live:
  "(\<forall>k. i \<le> k \<and> k < i + n \<longrightarrow> slot b k \<noteq> None) \<Longrightarrow>
   \<exists>b'. destroy_n b i n = Some b' \<and> length b' = length b \<and>
        (\<forall>k<length b. b' ! k = (if i \<le> k \<and> k < i + n then None else b ! k))"
proof (induction n arbitrary: b i)
  case 0
  then show ?case by auto
next
  case (Suc n)
  from Suc.prems have "slot b i \<noteq> None" by simp
  then have d: "destroy_at b i = Some (b[i := None])" by (rule destroy_at_live)
  have "\<forall>k. Suc i \<le> k \<and> k < Suc i + n \<longrightarrow> slot (b[i := None]) k \<noteq> None"
    using Suc.prems by (simp add: slot_update)
  from Suc.IH[OF this] obtain b' where b': "destroy_n (b[i := None]) (Suc i) n = Some b'"
    "length b' = length b"
    "\<And>k. k < length b \<Longrightarrow> b' ! k = (if Suc i \<le> k \<and> k < Suc i + n then None else b[i := None] ! k)"
    by auto
  have "\<forall>k<length b. b' ! k = (if i \<le> k \<and> k < i + Suc n then None else b ! k)"
  proof (intro allI impI)
    fix k assume k: "k < length b"
    show "b' ! k = (if i \<le> k \<and> k < i + Suc n then None else b ! k)"
      using b'(3)[OF k] k by (cases "k = i") auto
  qed
  with b'(1,2) d show ?case by simp
qed

lemma destroy_n_some_nth:
  "destroy_n b i n = Some b' \<Longrightarrow>
   length b' = length b \<and> (\<forall>k<length b. b' ! k = (if i \<le> k \<and> k < i + n then None else b ! k))"
proof (induction n arbitrary: b i)
  case 0
  then show ?case by auto
next
  case (Suc n)
  from Suc.prems have rec: "destroy_n (b[i := None]) (Suc i) n = Some b'"
    by (auto simp: destroy_at_def split: option.splits)
  from Suc.prems have i: "i < length b"
    by (auto simp: destroy_at_def slot_def split: option.splits if_splits)
  from Suc.IH[OF rec] have ih: "length b' = length b"
    "\<And>k. k < length b \<Longrightarrow> b' ! k = (if Suc i \<le> k \<and> k < Suc i + n then None else b[i := None] ! k)"
    by simp_all
  have "\<forall>k<length b. b' ! k = (if i \<le> k \<and> k < i + Suc n then None else b ! k)"
  proof (intro allI impI)
    fix k assume k: "k < length b"
    show "b' ! k = (if i \<le> k \<and> k < i + Suc n then None else b ! k)"
      using ih(2)[OF k] k by (cases "k = i") auto
  qed
  with ih(1) show ?case by simp
qed

lemma length_block_of: "length xs \<le> c \<Longrightarrow> length (block_of xs c) = c"
  by (simp add: block_of_def)

lemma nth_block_of:
  "k < c \<Longrightarrow> length xs \<le> c \<Longrightarrow> block_of xs c ! k = (if k < length xs then Some (xs ! k) else None)"
  by (simp add: block_of_def nth_append)

lemma slot_block_of:
  "length xs \<le> c \<Longrightarrow> slot (block_of xs c) k = (if k < length xs then Some (xs ! k) else None)"
  by (auto simp: slot_def length_block_of nth_block_of)

lemma block_eqI:
  assumes "length b = c" "length xs \<le> c"
    and "\<And>k. k < c \<Longrightarrow> b ! k = (if k < length xs then Some (xs ! k) else None)"
  shows "b = block_of xs c"
  using assms by (intro nth_equalityI) (simp_all add: length_block_of nth_block_of)

text \<open>uninitialized_copy_n\<close>

lemma uninitialized_copy_n_Inr:
  "uninitialized_copy_n T src i n dst j = Inr d \<Longrightarrow>
     length d = length dst \<and>
     (\<forall>k<length dst. d ! k = (if j \<le> k \<and> k < j + n then slot src (i + (k - j)) else dst ! k)) \<and>
     (\<forall>k<n. j + k < length dst \<and> (\<exists>x. slot src (i + k) = Some x \<and> \<not> copy_throws T x))"
proof (induction n arbitrary: i dst j d)
  case 0 then show ?case by auto
next
  case (Suc n)
  from Suc.prems obtain x where x: "slot src i = Some x" and j: "j < length dst"
    and nt: "\<not> copy_throws T x"
    and rec: "uninitialized_copy_n T src (Suc i) n (dst[j := Some x]) (Suc j) = Inr d"
    by (auto simp: copy_construct_def split: option.splits if_splits sum.splits fault.splits)
  from Suc.IH[OF rec] have ih: "length d = length dst"
    "\<forall>k<length dst. d ! k = (if Suc j \<le> k \<and> k < Suc j + n then slot src (Suc i + (k - Suc j)) else dst[j := Some x] ! k)"
    "\<forall>k<n. Suc j + k < length dst \<and> (\<exists>x. slot src (Suc i + k) = Some x \<and> \<not> copy_throws T x)"
    by simp_all
  have "\<forall>k<length dst. d ! k = (if j \<le> k \<and> k < j + Suc n then slot src (i + (k - j)) else dst ! k)"
  proof (intro allI impI)
    fix k assume k: "k < length dst"
    show "d ! k = (if j \<le> k \<and> k < j + Suc n then slot src (i + (k - j)) else dst ! k)"
    proof (cases "k = j")
      case True with ih(2) k x show ?thesis by simp
    next
      case False
      then have "Suc i + (k - Suc j) = i + (k - j)" if "j \<le> k" using that by simp
      with False ih(2) k show ?thesis by (auto simp: Suc_diff_Suc)
    qed
  qed
  moreover have "\<forall>k<Suc n. j + k < length dst \<and> (\<exists>x. slot src (i + k) = Some x \<and> \<not> copy_throws T x)"
  proof (intro allI impI)
    fix k assume "k < Suc n"
    then show "j + k < length dst \<and> (\<exists>x. slot src (i + k) = Some x \<and> \<not> copy_throws T x)"
      using x nt j ih(3) by (cases k) auto
  qed
  ultimately show ?case using ih(1) by simp
qed

lemma uninitialized_copy_n_Thrown:
  "uninitialized_copy_n T src i n dst j = Inl (Thrown d) \<Longrightarrow>
     (\<forall>k. j \<le> k \<and> k < j + n \<longrightarrow> slot dst k = None) \<Longrightarrow> d = dst"
proof (induction n arbitrary: i dst j d)
  case 0 then show ?case by simp
next
  case (Suc n)
  from Suc.prems(1) obtain x where x: "slot src i = Some x" and j: "j < length dst"
    by (auto split: option.splits if_splits)
  show ?case
  proof (cases "copy_throws T x")
    case True
    with Suc.prems(1) x j show ?thesis by (simp add: copy_construct_def)
  next
    case False
    with Suc.prems(1) x j obtain d' where
      rec: "uninitialized_copy_n T src (Suc i) n (dst[j := Some x]) (Suc j) = Inl (Thrown d')"
      and d: "d = d'[j := None]"
      by (auto simp: copy_construct_def split: sum.splits fault.splits)
    have "\<forall>k. Suc j \<le> k \<and> k < Suc j + n \<longrightarrow> slot (dst[j := Some x]) k = None"
      using Suc.prems(2) by (auto simp: slot_update)
    from Suc.IH[OF rec this] have "d' = dst[j := Some x]" .
    moreover have "dst ! j = None" using Suc.prems(2)[rule_format, of j] j by (simp add: slot_def)
    ultimately show ?thesis using d j by (simp add: list_update_same_conv)
  qed
qed

lemma uninitialized_copy_n_ok:
  "(\<forall>k<n. \<exists>x. slot src (i + k) = Some x \<and> \<not> copy_throws T x) \<Longrightarrow> j + n \<le> length dst \<Longrightarrow>
   \<exists>d. uninitialized_copy_n T src i n dst j = Inr d"
proof (induction n arbitrary: i dst j)
  case 0 then show ?case by simp
next
  case (Suc n)
  from Suc.prems(1)[rule_format, of 0] obtain x where x: "slot src i = Some x" "\<not> copy_throws T x"
    by auto
  have "\<forall>k<n. \<exists>x. slot src (Suc i + k) = Some x \<and> \<not> copy_throws T x"
    using Suc.prems(1) by (metis Suc_less_eq add_Suc_shift)
  from Suc.IH[OF this, of "Suc j" "dst[j := Some x]"] Suc.prems(2)
  obtain d where "uninitialized_copy_n T src (Suc i) n (dst[j := Some x]) (Suc j) = Inr d"
    by auto
  with x Suc.prems(2) show ?case by (simp add: copy_construct_def)
qed


text \<open>uninitialized_move_n\<close>

lemma uninitialized_move_n_Inr:
  "uninitialized_move_n T src i n dst j = Inr (s, d) \<Longrightarrow>
     length d = length dst \<and> length s = length src \<and>
     (\<forall>k<length dst. d ! k = (if j \<le> k \<and> k < j + n then slot src (i + (k - j)) else dst ! k)) \<and>
     (\<forall>k<length src. s ! k = (if i \<le> k \<and> k < i + n then map_option (moved_from T) (src ! k) else src ! k)) \<and>
     (\<forall>k<n. j + k < length dst \<and> (\<exists>x. slot src (i + k) = Some x \<and> move_construct T x = Some x))"
proof (induction n arbitrary: i src dst j s d)
  case 0 then show ?case by auto
next
  case (Suc n)
  from Suc.prems obtain x where x: "slot src i = Some x" and j: "j < length dst"
    by (auto split: option.splits if_splits)
  from Suc.prems x j obtain y where y: "move_construct T x = Some y"
    by (cases "move_construct T x") auto
  then have nt: "move_construct T x = Some x"
    by (simp add: move_construct_def split: if_splits)
  with y have "y = x" by simp
  with Suc.prems x j y
  have rec: "uninitialized_move_n T (src[i := Some (moved_from T x)]) (Suc i) n (dst[j := Some x]) (Suc j) = Inr (s, d)"
    by (cases "uninitialized_move_n T (src[i := Some (moved_from T x)]) (Suc i) n (dst[j := Some x]) (Suc j)")
       (auto split: fault.splits)
  let ?src = "src[i := Some (moved_from T x)]"
  from x have i: "i < length src" "src ! i = Some x" by (auto simp: slot_def split: if_splits)
  from Suc.IH[OF rec] have ih: "length d = length dst" "length s = length src"
    "\<And>k. k < length dst \<Longrightarrow> d ! k = (if Suc j \<le> k \<and> k < Suc j + n then slot ?src (Suc i + (k - Suc j)) else dst[j := Some x] ! k)"
    "\<And>k. k < length src \<Longrightarrow> s ! k = (if Suc i \<le> k \<and> k < Suc i + n then map_option (moved_from T) (?src ! k) else ?src ! k)"
    "\<And>k. k < n \<Longrightarrow> Suc j + k < length dst \<and> (\<exists>x. slot ?src (Suc i + k) = Some x \<and> move_construct T x = Some x)"
    by simp_all
  have "\<forall>k<length dst. d ! k = (if j \<le> k \<and> k < j + Suc n then slot src (i + (k - j)) else dst ! k)"
  proof (intro allI impI)
    fix k assume k: "k < length dst"
    show "d ! k = (if j \<le> k \<and> k < j + Suc n then slot src (i + (k - j)) else dst ! k)"
    proof (cases "k = j")
      case True with ih(3)[OF k] k x show ?thesis by simp
    next
      case False
      then have "Suc i + (k - Suc j) = i + (k - j)" if "j \<le> k" using that by simp
      moreover have "slot ?src m = slot src m" if "i < m" for m
        using that by (simp add: slot_update)
      ultimately show ?thesis using False ih(3)[OF k] k by (auto simp: Suc_diff_Suc)
    qed
  qed
  moreover have "\<forall>k<length src. s ! k = (if i \<le> k \<and> k < i + Suc n then map_option (moved_from T) (src ! k) else src ! k)"
  proof (intro allI impI)
    fix k assume k: "k < length src"
    show "s ! k = (if i \<le> k \<and> k < i + Suc n then map_option (moved_from T) (src ! k) else src ! k)"
      using ih(4)[OF k] i by (cases "k = i") auto
  qed
  moreover have "\<forall>k<Suc n. j + k < length dst \<and> (\<exists>x. slot src (i + k) = Some x \<and> move_construct T x = Some x)"
  proof (intro allI impI)
    fix k assume k: "k < Suc n"
    show "j + k < length dst \<and> (\<exists>x. slot src (i + k) = Some x \<and> move_construct T x = Some x)"
    proof (cases k)
      case 0 with x nt j show ?thesis by simp
    next
      case (Suc m)
      with k have "m < n" by simp
      from ih(5)[OF this] Suc show ?thesis by (simp add: slot_update)
    qed
  qed
  ultimately show ?case using ih(1,2) by simp
qed

lemma uninitialized_move_n_Thrown:
  "uninitialized_move_n T src i n dst j = Inl (Thrown (s, d)) \<Longrightarrow>
     (\<forall>k. j \<le> k \<and> k < j + n \<longrightarrow> slot dst k = None) \<Longrightarrow>
     d = dst \<and> length s = length src \<and> (\<forall>k<length src. (s ! k = None) = (src ! k = None))"
proof (induction n arbitrary: i src dst j s d)
  case 0 then show ?case by simp
next
  case (Suc n)
  from Suc.prems(1) obtain x where x: "slot src i = Some x" and j: "j < length dst"
    by (auto split: option.splits if_splits)
  from x have i: "i < length src" "src ! i = Some x" by (auto simp: slot_def split: if_splits)
  show ?case
  proof (cases "move_construct T x")
    case None
    with Suc.prems(1) x j show ?thesis by simp
  next
    case (Some y)
    with Suc.prems(1) x j obtain d' where
      rec: "uninitialized_move_n T (src[i := Some (moved_from T x)]) (Suc i) n (dst[j := Some y]) (Suc j) = Inl (Thrown (s, d'))"
      and d: "d = d'[j := None]"
      by (auto split: sum.splits fault.splits prod.splits)
    have "\<forall>k. Suc j \<le> k \<and> k < Suc j + n \<longrightarrow> slot (dst[j := Some y]) k = None"
      using Suc.prems(2) by (auto simp: slot_update)
    from Suc.IH[OF rec this] have ih: "d' = dst[j := Some y]"
      "length s = length src" "\<forall>k<length src. (s ! k = None) = (src[i := Some (moved_from T x)] ! k = None)"
      by simp_all
    have "dst ! j = None" using Suc.prems(2)[rule_format, of j] j by (simp add: slot_def)
    then have "d = dst" using ih(1) d j by (simp add: list_update_same_conv)
    moreover have "\<forall>k<length src. (s ! k = None) = (src ! k = None)"
    proof (intro allI impI)
      fix k assume k: "k < length src"
      show "(s ! k = None) = (src ! k = None)"
        using ih(3)[rule_format, OF k] i by (cases "k = i") auto
    qed
    ultimately show ?thesis using ih(2) by simp
  qed
qed

lemma uninitialized_move_n_not_Thrown:
  "\<forall>x. move_construct T x \<noteq> None \<Longrightarrow> uninitialized_move_n T src i n dst j \<noteq> Inl (Thrown sd)"
proof (induction n arbitrary: i src dst j sd)
  case 0 then show ?case by simp
next
  case (Suc n)
  show ?case
  proof
    assume a: "uninitialized_move_n T src i (Suc n) dst j = Inl (Thrown sd)"
    then obtain x where x: "slot src i = Some x" and j: "j < length dst"
      by (auto split: option.splits if_splits)
    from Suc.prems obtain y where y: "move_construct T x = Some y" by auto
    from a x j y obtain sd' where
      "uninitialized_move_n T (src[i := Some (moved_from T x)]) (Suc i) n (dst[j := Some y]) (Suc j) = Inl (Thrown sd')"
      by (auto split: sum.splits fault.splits prod.splits)
    with Suc.IH[OF Suc.prems] show False by blast
  qed
qed

lemma uninitialized_move_n_ok:
  "(\<forall>k<n. \<exists>x. slot src (i + k) = Some x \<and> move_construct T x \<noteq> None) \<Longrightarrow> j + n \<le> length dst \<Longrightarrow>
   \<exists>r. uninitialized_move_n T src i n dst j = Inr r"
proof (induction n arbitrary: i src dst j)
  case 0 then show ?case by simp
next
  case (Suc n)
  from Suc.prems(1)[rule_format, of 0] obtain x y where x: "slot src i = Some x" "move_construct T x = Some y"
    by auto
  have "\<forall>k<n. \<exists>x. slot src (Suc i + k) = Some x \<and> move_construct T x \<noteq> None"
    using Suc.prems(1) by (metis Suc_less_eq add_Suc_shift)
  then have "\<forall>k<n. \<exists>x'. slot (src[i := Some (moved_from T x)]) (Suc i + k) = Some x' \<and> move_construct T x' \<noteq> None"
    by (simp add: slot_update)
  from Suc.IH[OF this, of "Suc j" "dst[j := Some y]"] Suc.prems(2)
  obtain r where "uninitialized_move_n T (src[i := Some (moved_from T x)]) (Suc i) n (dst[j := Some y]) (Suc j) = Inr r"
    by auto
  with x Suc.prems(2) show ?case by simp
qed


text \<open>uninitialized_value_construct_n\<close>

lemma uninitialized_value_construct_n_Inr:
  "uninitialized_value_construct_n T b i n = Inr d \<Longrightarrow>
     length d = length b \<and>
     (\<forall>k<length b. d ! k = (if i \<le> k \<and> k < i + n then value_init T else b ! k)) \<and>
     (\<forall>k<n. i + k < length b \<and> value_init T \<noteq> None)"
proof (induction n arbitrary: b i d)
  case 0 then show ?case by auto
next
  case (Suc n)
  from Suc.prems obtain x where x: "value_init T = Some x" and i: "i < length b"
    by (auto split: option.splits if_splits)
  with Suc.prems have rec: "uninitialized_value_construct_n T (b[i := Some x]) (Suc i) n = Inr d"
    by (cases "uninitialized_value_construct_n T (b[i := Some x]) (Suc i) n")
       (auto split: fault.splits)
  from Suc.IH[OF rec] have ih: "length d = length b"
    "\<And>k. k < length b \<Longrightarrow> d ! k = (if Suc i \<le> k \<and> k < Suc i + n then value_init T else b[i := Some x] ! k)"
    "\<And>k. k < n \<Longrightarrow> Suc i + k < length b"
    by simp_all
  have "\<forall>k<length b. d ! k = (if i \<le> k \<and> k < i + Suc n then value_init T else b ! k)"
  proof (intro allI impI)
    fix k assume k: "k < length b"
    show "d ! k = (if i \<le> k \<and> k < i + Suc n then value_init T else b ! k)"
      using ih(2)[OF k] x k by (cases "k = i") auto
  qed
  moreover have "\<forall>k<Suc n. i + k < length b \<and> value_init T \<noteq> None"
  proof (intro allI impI)
    fix k assume k: "k < Suc n"
    show "i + k < length b \<and> value_init T \<noteq> None"
      using ih(3)[of "k - 1"] k i x by (cases k) auto
  qed
  ultimately show ?case using ih(1) by simp
qed

lemma uninitialized_value_construct_n_Thrown:
  "uninitialized_value_construct_n T b i n = Inl (Thrown d) \<Longrightarrow>
     (\<forall>k. i \<le> k \<and> k < i + n \<longrightarrow> slot b k = None) \<Longrightarrow> d = b"
proof (induction n arbitrary: b i d)
  case 0 then show ?case by simp
next
  case (Suc n)
  from Suc.prems(1) have i: "i < length b" by (auto split: if_splits)
  show ?case
  proof (cases "value_init T")
    case None
    with Suc.prems(1) i show ?thesis by simp
  next
    case (Some x)
    with Suc.prems(1) i obtain d' where
      rec: "uninitialized_value_construct_n T (b[i := Some x]) (Suc i) n = Inl (Thrown d')"
      and d: "d = d'[i := None]"
      by (auto split: sum.splits fault.splits)
    have "\<forall>k. Suc i \<le> k \<and> k < Suc i + n \<longrightarrow> slot (b[i := Some x]) k = None"
      using Suc.prems(2) by (auto simp: slot_update)
    from Suc.IH[OF rec this] have "d' = b[i := Some x]" .
    moreover have "b ! i = None" using Suc.prems(2)[rule_format, of i] i by (simp add: slot_def)
    ultimately show ?thesis using d i by (simp add: list_update_same_conv)
  qed
qed

lemma uninitialized_value_construct_n_ok:
  "value_init T = Some x \<Longrightarrow> i + n \<le> length b \<Longrightarrow>
   \<exists>d. uninitialized_value_construct_n T b i n = Inr d"
proof (induction n arbitrary: b i)
  case 0 then show ?case by simp
next
  case (Suc n)
  from Suc.IH[OF Suc.prems(1), of "Suc i" "b[i := Some x]"] Suc.prems(2)
  obtain d where "uninitialized_value_construct_n T (b[i := Some x]) (Suc i) n = Inr d"
    by auto
  with Suc.prems show ?case by simp
qed

text \<open>copy_n\<close>

lemma copy_n_ok:
  "(\<forall>k<n. slot src (i + k) \<noteq> None \<and> slot dst (j + k) \<noteq> None) \<Longrightarrow>
   \<exists>d. copy_n src i n dst j = Inr d \<and> length d = length dst \<and>
     (\<forall>k<length dst. d ! k = (if j \<le> k \<and> k < j + n then slot src (i + (k - j)) else dst ! k))"
proof (induction n arbitrary: i dst j)
  case 0 then show ?case by auto
next
  case (Suc n)
  from Suc.prems[rule_format, of 0] obtain x y where x: "slot src i = Some x" and y: "slot dst j = Some y"
    by auto
  from y have j: "j < length dst" by (auto simp: slot_def split: if_splits)
  have "\<forall>k<n. slot src (Suc i + k) \<noteq> None \<and> slot (dst[j := Some x]) (Suc j + k) \<noteq> None"
  proof (intro allI impI)
    fix k assume "k < n"
    then have "Suc k < Suc n" by simp
    from Suc.prems[rule_format, OF this] show "slot src (Suc i + k) \<noteq> None \<and> slot (dst[j := Some x]) (Suc j + k) \<noteq> None"
      by (simp add: slot_update)
  qed
  from Suc.IH[OF this] obtain d where d: "copy_n src (Suc i) n (dst[j := Some x]) (Suc j) = Inr d"
    "length d = length dst"
    "\<And>k. k < length dst \<Longrightarrow> d ! k = (if Suc j \<le> k \<and> k < Suc j + n then slot src (Suc i + (k - Suc j)) else dst[j := Some x] ! k)"
    by auto
  have "\<forall>k<length dst. d ! k = (if j \<le> k \<and> k < j + Suc n then slot src (i + (k - j)) else dst ! k)"
  proof (intro allI impI)
    fix k assume k: "k < length dst"
    show "d ! k = (if j \<le> k \<and> k < j + Suc n then slot src (i + (k - j)) else dst ! k)"
    proof (cases "k = j")
      case True with d(3)[OF k] k x show ?thesis by simp
    next
      case False
      then have "Suc i + (k - Suc j) = i + (k - j)" if "j \<le> k" using that by simp
      with False d(3)[OF k] k show ?thesis by (auto simp: Suc_diff_Suc)
    qed
  qed
  with d(1,2) x y show ?case by simp
qed

lemma copy_n_not_Thrown: "copy_n src i n dst j \<noteq> Inl (Thrown d)"
  by (induction n arbitrary: i dst j) (auto split: option.splits)



text \<open>std_move and move_backward, for ranges shifted by one slot\<close>

lemma std_move_ok:
  "n = l - f \<Longrightarrow> f = Suc p \<Longrightarrow> f \<le> l \<Longrightarrow> l \<le> length b \<Longrightarrow>
   (\<forall>k. p \<le> k \<and> k < l \<longrightarrow> b ! k \<noteq> None) \<Longrightarrow>
   \<exists>b'. std_move T b f l p = Inr (b', l - 1) \<and> length b' = length b \<and>
     (\<forall>k<length b. b' ! k =
        (if p \<le> k \<and> k < l - 1 then b ! Suc k
         else if k = l - 1 \<and> f < l then map_option (moved_from T) (b ! k)
         else b ! k))"
proof (induction n arbitrary: b f p)
  case 0
  then have "f = l" by simp
  with 0 show ?case by (subst std_move.simps) auto
next
  case (Suc n)
  then have fl: "f < l" by simp
  note f = Suc.prems(2)
  from Suc.prems(5)[rule_format, of f] fl f obtain x where x: "b ! f = Some x" by auto
  from Suc.prems(5)[rule_format, of p] fl f obtain y where y: "b ! p = Some y" by auto
  let ?b = "b[f := Some (moved_from T x), p := Some x]"
  have "\<exists>b'. std_move T ?b (Suc f) l f = Inr (b', l - 1) \<and> length b' = length ?b \<and>
     (\<forall>k<length ?b. b' ! k =
        (if f \<le> k \<and> k < l - 1 then ?b ! Suc k
         else if k = l - 1 \<and> Suc f < l then map_option (moved_from T) (?b ! k)
         else ?b ! k))"
  proof (rule Suc.IH)
    show "n = l - Suc f" using Suc.prems(1) by simp
    show "Suc f = Suc f" by simp
    show "Suc f \<le> l" using fl by simp
    show "l \<le> length ?b" using Suc.prems(4) by simp
    show "\<forall>k. f \<le> k \<and> k < l \<longrightarrow> ?b ! k \<noteq> None"
      using Suc.prems(4,5) f fl by (auto simp: nth_list_update)
  qed
  then obtain b' where b': "std_move T ?b (Suc f) l f = Inr (b', l - 1)" "length b' = length b"
    "\<And>k. k < length b \<Longrightarrow> b' ! k =
        (if f \<le> k \<and> k < l - 1 then ?b ! Suc k
         else if k = l - 1 \<and> Suc f < l then map_option (moved_from T) (?b ! k)
         else ?b ! k)"
    by auto
  have sl: "slot b f = Some x" "slot b p = Some y"
    using x y Suc.prems(4) f fl by (auto simp: slot_def)
  have "std_move T b f l p = Inr (b', l - 1)"
    using b'(1) sl fl f by (subst std_move.simps) simp
  moreover have "\<forall>k<length b. b' ! k =
        (if p \<le> k \<and> k < l - 1 then b ! Suc k
         else if k = l - 1 \<and> f < l then map_option (moved_from T) (b ! k)
         else b ! k)"
  proof (intro allI impI)
    fix k assume k: "k < length b"
    note step = b'(3)[OF k]
    consider "k = p" | "f \<le> k" "Suc k < l" | "Suc k = l" "Suc f < l" | "k = f" "Suc f = l" | "k < p" | "l \<le> k"
      using f fl by linarith
    then show "b' ! k =
        (if p \<le> k \<and> k < l - 1 then b ! Suc k
         else if k = l - 1 \<and> f < l then map_option (moved_from T) (b ! k)
         else b ! k)"
    proof cases
      case 1 with step k f fl x show ?thesis by (auto simp: nth_list_update)
    next
      case 2 with step k f fl x show ?thesis by (auto simp: nth_list_update)
    next
      case 3 with step k f fl x show ?thesis by (auto simp: nth_list_update)
    next
      case 4 with step k f fl x show ?thesis by (auto simp: nth_list_update)
    next
      case 5 with step k f fl x show ?thesis by (auto simp: nth_list_update)
    next
      case 6 with step k f fl x show ?thesis by (auto simp: nth_list_update)
    qed
  qed
  ultimately show ?case using b'(2) by blast
qed


lemma move_backward_ok:
  "n = l - f \<Longrightarrow> d = Suc l \<Longrightarrow> f \<le> l \<Longrightarrow> l < length b \<Longrightarrow>
   (\<forall>k. f \<le> k \<and> k \<le> l \<longrightarrow> b ! k \<noteq> None) \<Longrightarrow>
   \<exists>b'. move_backward T b f l d = Inr b' \<and> length b' = length b \<and>
     (\<forall>k<length b. b' ! k =
        (if f < k \<and> k \<le> l then b ! (k - 1)
         else if k = f \<and> f < l then map_option (moved_from T) (b ! k)
         else b ! k))"
proof (induction n arbitrary: b l d)
  case 0
  then have "f = l" by simp
  with 0 show ?case by (subst move_backward.simps) auto
next
  case (Suc n)
  then have fl: "f < l" by simp
  define m where "m = l - 1"
  with fl have l: "l = Suc m" and fm: "f \<le> m" by simp_all
  from Suc.prems(5)[rule_format, of m] fm l obtain x where x: "b ! m = Some x" by auto
  from Suc.prems(5)[rule_format, of l] fl obtain y where y: "b ! l = Some y" by auto
  let ?b = "b[m := Some (moved_from T x), l := Some x]"
  have "\<exists>b'. move_backward T ?b f m l = Inr b' \<and> length b' = length ?b \<and>
     (\<forall>k<length ?b. b' ! k =
        (if f < k \<and> k \<le> m then ?b ! (k - 1)
         else if k = f \<and> f < m then map_option (moved_from T) (?b ! k)
         else ?b ! k))"
  proof (rule Suc.IH)
    show "n = m - f" using Suc.prems(1) l by simp
    show "l = Suc m" by (rule l)
    show "f \<le> m" by (rule fm)
    show "m < length ?b" using Suc.prems(4) l by simp
    show "\<forall>k. f \<le> k \<and> k \<le> m \<longrightarrow> ?b ! k \<noteq> None"
      using Suc.prems(4,5) l by (auto simp: nth_list_update)
  qed
  then obtain b' where b': "move_backward T ?b f m l = Inr b'" "length b' = length b"
    "\<And>k. k < length b \<Longrightarrow> b' ! k =
        (if f < k \<and> k \<le> m then ?b ! (k - 1)
         else if k = f \<and> f < m then map_option (moved_from T) (?b ! k)
         else ?b ! k)"
    by auto
  have sl: "slot b (l - 1) = Some x" "slot b (d - 1) = Some y"
    using x y Suc.prems(2,4) l by (auto simp: slot_def)
  have "move_backward T b f l d = Inr b'"
    using b'(1) sl fl Suc.prems(2) l by (subst move_backward.simps) simp
  moreover have "\<forall>k<length b. b' ! k =
        (if f < k \<and> k \<le> l then b ! (k - 1)
         else if k = f \<and> f < l then map_option (moved_from T) (b ! k)
         else b ! k)"
  proof (intro allI impI)
    fix k assume k: "k < length b"
    note step = b'(3)[OF k]
    consider "k = l" | "f < k" "k \<le> m" | "k = f" "f < m" | "k = f" "f = m" | "k < f" | "l < k"
      using l fm by linarith
    then show "b' ! k =
        (if f < k \<and> k \<le> l then b ! (k - 1)
         else if k = f \<and> f < l then map_option (moved_from T) (b ! k)
         else b ! k)"
    proof cases
      case 1 with step k l fm x show ?thesis by simp
    next
      case 2 with step k l fm x show ?thesis by (simp add: nth_list_update)
    next
      case 3 with step k l fm x show ?thesis by (simp add: nth_list_update)
    next
      case 4 with step k l fm x show ?thesis by (simp add: nth_list_update)
    next
      case 5 with step k l fm x show ?thesis by (simp add: nth_list_update)
    next
      case 6 with step k l fm x show ?thesis by (simp add: nth_list_update)
    qed
  qed
  ultimately show ?case using b'(2) by blast
qed

text \<open>On ranges of live objects and of existing slots the algorithms return or throw\<close>

lemma uninitialized_copy_n_defined:
  "(\<forall>k<n. slot src (i + k) \<noteq> None) \<Longrightarrow> j + n \<le> length dst \<Longrightarrow>
   (\<exists>d. uninitialized_copy_n T src i n dst j = Inr d) \<or>
   (\<exists>d. uninitialized_copy_n T src i n dst j = Inl (Thrown d))"
proof (induction n arbitrary: i dst j)
  case 0 then show ?case by simp
next
  case (Suc n)
  from Suc.prems(1)[rule_format, of 0] obtain x where x: "slot src i = Some x" by auto
  show ?case
  proof (cases "copy_construct T x")
    case None
    with x Suc.prems(2) show ?thesis by simp
  next
    case (Some y)
    have "\<forall>k<n. slot src (Suc i + k) \<noteq> None"
      using Suc.prems(1) by (metis Suc_less_eq add_Suc_shift)
    from Suc.IH[OF this, of "Suc j" "dst[j := Some y]"] Suc.prems(2)
    have "(\<exists>d. uninitialized_copy_n T src (Suc i) n (dst[j := Some y]) (Suc j) = Inr d) \<or>
          (\<exists>d. uninitialized_copy_n T src (Suc i) n (dst[j := Some y]) (Suc j) = Inl (Thrown d))"
      by simp
    with x Some Suc.prems(2) show ?thesis by auto
  qed
qed

lemma uninitialized_move_n_defined:
  "(\<forall>k<n. slot src (i + k) \<noteq> None) \<Longrightarrow> j + n \<le> length dst \<Longrightarrow>
   (\<exists>r. uninitialized_move_n T src i n dst j = Inr r) \<or>
   (\<exists>r. uninitialized_move_n T src i n dst j = Inl (Thrown r))"
proof (induction n arbitrary: i src dst j)
  case 0 then show ?case by simp
next
  case (Suc n)
  from Suc.prems(1)[rule_format, of 0] obtain x where x: "slot src i = Some x" by auto
  show ?case
  proof (cases "move_construct T x")
    case None
    with x Suc.prems(2) show ?thesis by simp
  next
    case (Some y)
    have "\<forall>k<n. slot src (Suc i + k) \<noteq> None"
      using Suc.prems(1) by (metis Suc_less_eq add_Suc_shift)
    then have "\<forall>k<n. slot (src[i := Some (moved_from T x)]) (Suc i + k) \<noteq> None"
      by (simp add: slot_update)
    from Suc.IH[OF this, of "Suc j" "dst[j := Some y]"] Suc.prems(2)
    have "(\<exists>r. uninitialized_move_n T (src[i := Some (moved_from T x)]) (Suc i) n
                 (dst[j := Some y]) (Suc j) = Inr r) \<or>
          (\<exists>r. uninitialized_move_n T (src[i := Some (moved_from T x)]) (Suc i) n
                 (dst[j := Some y]) (Suc j) = Inl (Thrown r))"
      by simp
    with x Some Suc.prems(2) show ?thesis by auto
  qed
qed

lemma uninitialized_value_construct_n_defined:
  "i + n \<le> length b \<Longrightarrow>
   (\<exists>d. uninitialized_value_construct_n T b i n = Inr d) \<or>
   (\<exists>d. uninitialized_value_construct_n T b i n = Inl (Thrown d))"
proof (induction n arbitrary: b i)
  case 0 then show ?case by simp
next
  case (Suc n)
  show ?case
  proof (cases "value_init T")
    case None
    with Suc.prems show ?thesis by simp
  next
    case (Some x)
    from Suc.IH[of "Suc i" "b[i := Some x]"] Suc.prems
    have "(\<exists>d. uninitialized_value_construct_n T (b[i := Some x]) (Suc i) n = Inr d) \<or>
          (\<exists>d. uninitialized_value_construct_n T (b[i := Some x]) (Suc i) n = Inl (Thrown d))"
      by simp
    with Some Suc.prems show ?thesis by auto
  qed
qed

text \<open>Outside the target block the behaviour is undefined at once\<close>

lemma uninitialized_copy_n_outside:
  "0 < n \<Longrightarrow> slot src i = Some x \<Longrightarrow> length dst \<le> j \<Longrightarrow>
   uninitialized_copy_n T src i n dst j = Inl (Undefined dst)"
  by (cases n) simp_all

lemma uninitialized_move_n_outside:
  "0 < n \<Longrightarrow> slot src i = Some x \<Longrightarrow> length dst \<le> j \<Longrightarrow>
   uninitialized_move_n T src i n dst j = Inl (Undefined (src, dst))"
  by (cases n) simp_all

lemma uninitialized_value_construct_n_outside:
  "0 < n \<Longrightarrow> length b \<le> i \<Longrightarrow> uninitialized_value_construct_n T b i n = Inl (Undefined b)"
  by (cases n) simp_all

text \<open>Allocate\<close>

lemma Allocate_allocates: "allocates T n \<Longrightarrow> Allocate T n = Some (replicate n None)"
  by (auto simp: allocates_def fits_def Allocate_def Let_def)

lemma Allocate_fits:
  "fits T n \<Longrightarrow> Allocate T n = None \<or> Allocate T n = Some (replicate n None)"
  by (auto simp: fits_def Allocate_def Let_def)

lemma Allocate_bytes:
  assumes "Allocate T n = Some b"
  shows "length b * size_of T < 2 ^ 64"
proof (cases "n = 0")
  case True
  with assms show ?thesis by (simp add: Allocate_def)
next
  case False
  with assms have "length b = ((n * size_of T) mod 2 ^ 64) div size_of T"
    by (auto simp: Allocate_def Let_def split: if_splits)
  then have "length b * size_of T \<le> (n * size_of T) mod 2 ^ 64" by simp
  moreover have "(n * size_of T) mod 2 ^ 64 < (2 :: nat) ^ 64" by simp
  ultimately show ?thesis by linarith
qed

lemma Allocate_Some:
  assumes "Allocate T n = Some b"
  shows "b = replicate (length b) None \<and>
         (length b = n \<or>
          length b < n \<and> (0 < size_of T \<longrightarrow> length b * size_of T + 2 ^ 64 \<le> n * size_of T))"
proof (cases "n = 0")
  case True
  with assms show ?thesis by (simp add: Allocate_def)
next
  case False
  define s where "s = size_of T"
  define bytes :: nat where "bytes = (n * s) mod 2 ^ 64"
  from assms False have b: "b = replicate (bytes div s) None"
    by (auto simp: Allocate_def Let_def bytes_def s_def split: if_splits)
  then have len: "length b = bytes div s" by simp
  have r: "b = replicate (length b) None" using b by simp
  show ?thesis
  proof (cases "s = 0")
    case True
    with len False r show ?thesis unfolding s_def by simp
  next
    case s: False
    show ?thesis
    proof (cases "n * s < 2 ^ 64")
      case True
      then have "bytes = n * s" by (simp add: bytes_def)
      then have "length b = n" using len s by simp
      with r show ?thesis by simp
    next
      case wrap: False
      have "bytes + 2 ^ 64 \<le> n * s"
      proof -
        have "(n * s) mod 2 ^ 64 = (n * s - 2 ^ 64) mod 2 ^ 64"
          using wrap by (simp add: le_mod_geq)
        also have "\<dots> \<le> n * s - 2 ^ 64" by (rule mod_less_eq_dividend)
        finally show ?thesis using wrap by (simp add: bytes_def)
      qed
      moreover have "length b * s \<le> bytes" using len by simp
      ultimately have le: "length b * s + 2 ^ 64 \<le> n * s" by linarith
      have "(0 :: nat) < 2 ^ 64" by simp
      with le have "length b * s < n * s" by linarith
      then have "length b < n" by simp
      with le r show ?thesis unfolding s_def by simp
    qed
  qed
qed

lemma Allocate_room:
  "Allocate T n = Some b \<Longrightarrow> n \<le> length b \<Longrightarrow> b = replicate n None"
  using Allocate_Some[of T n b] by auto

lemma Allocate_room_fits:
  assumes "Allocate T n = Some b" "n \<le> length b" "0 < n"
  shows "fits T n"
proof -
  from Allocate_room[OF assms(1,2)] have b: "b = replicate n None" .
  define s where "s = size_of T"
  from assms(1,3) b have eq: "((n * s) mod 2 ^ 64) div s = n"
    by (auto simp: Allocate_def Let_def s_def split: if_splits dest: replicate_eq_replicate[THEN iffD1])
  have s: "0 < s" using eq assms(3) by (cases "s = 0") auto
  have "n * s \<le> (n * s) mod 2 ^ 64"
  proof -
    have "((n * s) mod 2 ^ 64) div s * s \<le> (n * s) mod 2 ^ 64" by simp
    with eq show ?thesis by simp
  qed
  moreover have "(n * s) mod 2 ^ 64 < (2 :: nat) ^ 64" by simp
  ultimately have "n * s < 2 ^ 64" by linarith
  with s show ?thesis by (simp add: fits_def s_def)
qed

lemma RawMemory_sized_allocates:
  "allocates T n \<Longrightarrow> RawMemory_sized T n = Some \<lparr>buffer_m = replicate n None, capacity_m = n\<rparr>"
  by (simp add: RawMemory_sized_def Allocate_allocates)

lemma RawMemory_sized_Some:
  "RawMemory_sized T n = Some d \<Longrightarrow>
   capacity_m d = n \<and> Allocate T n = Some (buffer_m d) \<and>
   buffer_m d = replicate (length (buffer_m d)) None \<and> length (buffer_m d) \<le> n"
  using Allocate_Some[of T n "buffer_m d"]
  by (auto simp: RawMemory_sized_def split: option.splits)

lemma RawMemory_sized_fits:
  "fits T n \<Longrightarrow> RawMemory_sized T n = Some d \<Longrightarrow>
   d = \<lparr>buffer_m = replicate n None, capacity_m = n\<rparr>"
  using Allocate_fits[of T n] by (auto simp: RawMemory_sized_def split: option.splits)

text \<open>CopyMoveNElements\<close>

lemma move_construct_nothrow: "nothrow T \<Longrightarrow> move_construct T x = Some x"
  by (auto simp: nothrow_def move_construct_def)

lemma copy_construct_nothrow: "nothrow T \<Longrightarrow> copy_construct T x = Some x"
  by (auto simp: nothrow_def copy_construct_def)

lemma CopyMoveNElements_Inr:
  assumes "CopyMoveNElements T src i n dst j = Inr (s, d)"
  shows "length d = length dst \<and> length s = length src \<and>
    (\<forall>k<length dst. d ! k = (if j \<le> k \<and> k < j + n then slot src (i + (k - j)) else dst ! k)) \<and>
    (\<forall>k<length src. (s ! k = None) = (src ! k = None)) \<and>
    (\<forall>k<length src. \<not> (i \<le> k \<and> k < i + n) \<longrightarrow> s ! k = src ! k) \<and>
    (\<forall>k<n. j + k < length dst \<and> slot src (i + k) \<noteq> None)"
proof (cases "nothrow_move_constructible T \<or> \<not> copy_constructible T")
  case True
  with assms have m: "uninitialized_move_n T src i n dst j = Inr (s, d)"
    by (simp add: CopyMoveNElements_def)
  note r = uninitialized_move_n_Inr[OF m]
  from r have s: "\<And>k. k < length src \<Longrightarrow> s ! k = (if i \<le> k \<and> k < i + n then map_option (moved_from T) (src ! k) else src ! k)"
    by simp
  from r have "\<And>k. k < n \<Longrightarrow> j + k < length dst \<and> (\<exists>x. slot src (i + k) = Some x \<and> move_construct T x = Some x)"
    by simp
  then have "\<forall>k<n. j + k < length dst \<and> slot src (i + k) \<noteq> None"
    by fastforce
  with r show ?thesis by (simp add: s)
next
  case False
  with assms have c: "uninitialized_copy_n T src i n dst j = Inr d" and s: "s = src"
    by (auto simp: CopyMoveNElements_def split: sum.splits)
  note r = uninitialized_copy_n_Inr[OF c]
  from r have "\<And>k. k < n \<Longrightarrow> j + k < length dst \<and> (\<exists>x. slot src (i + k) = Some x \<and> \<not> copy_throws T x)"
    by simp
  then have "\<forall>k<n. j + k < length dst \<and> slot src (i + k) \<noteq> None"
    by fastforce
  with r s show ?thesis by simp
qed

lemma CopyMoveNElements_Thrown:
  assumes "CopyMoveNElements T src i n dst j = Inl (Thrown (s, d))"
    and raw: "\<forall>k. j \<le> k \<and> k < j + n \<longrightarrow> slot dst k = None"
  shows "d = dst \<and> length s = length src \<and>
    (\<forall>k<length src. (s ! k = None) = (src ! k = None)) \<and>
    (copy_constructible T \<or> nothrow_move_constructible T \<longrightarrow> s = src)"
proof (cases "nothrow_move_constructible T \<or> \<not> copy_constructible T")
  case True
  with assms have m: "uninitialized_move_n T src i n dst j = Inl (Thrown (s, d))"
    by (simp add: CopyMoveNElements_def)
  note r = uninitialized_move_n_Thrown[OF m raw]
  have "s = src" if "copy_constructible T \<or> nothrow_move_constructible T"
  proof -
    from that True have "nothrow_move_constructible T" by blast
    then have "\<forall>x. move_construct T x \<noteq> None" by (simp add: move_construct_def)
    from uninitialized_move_n_not_Thrown[OF this] m show ?thesis by blast
  qed
  with r show ?thesis by blast
next
  case False
  with assms obtain f where c: "uninitialized_copy_n T src i n dst j = Inl f"
    and f: "map_fault (Pair src) f = Thrown (s, d)"
    by (auto simp: CopyMoveNElements_def split: sum.splits)
  from f have "f = Thrown d" and s: "s = src" by (cases f; simp)+
  with c have "uninitialized_copy_n T src i n dst j = Inl (Thrown d)" by simp
  from uninitialized_copy_n_Thrown[OF this raw] have "d = dst" .
  with s show ?thesis by simp
qed

lemma CopyMoveNElements_ok:
  assumes "nothrow T" "\<forall>k<n. slot src (i + k) \<noteq> None" "j + n \<le> length dst"
  shows "\<exists>r. CopyMoveNElements T src i n dst j = Inr r"
proof (cases "nothrow_move_constructible T \<or> \<not> copy_constructible T")
  case True
  have "\<forall>k<n. \<exists>x. slot src (i + k) = Some x \<and> move_construct T x \<noteq> None"
    using assms(1,2) by (auto simp: move_construct_nothrow)
  from uninitialized_move_n_ok[OF this assms(3)] True show ?thesis
    by (simp add: CopyMoveNElements_def)
next
  case False
  have "\<forall>k<n. \<exists>x. slot src (i + k) = Some x \<and> \<not> copy_throws T x"
    using assms(1,2) by (auto simp: nothrow_def)
  from uninitialized_copy_n_ok[OF this assms(3)] False show ?thesis
    by (auto simp: CopyMoveNElements_def)
qed

lemma CopyMoveNElements_defined:
  assumes "\<forall>k<n. slot src (i + k) \<noteq> None" "j + n \<le> length dst"
  shows "(\<exists>r. CopyMoveNElements T src i n dst j = Inr r) \<or>
         (\<exists>r. CopyMoveNElements T src i n dst j = Inl (Thrown r))"
proof (cases "nothrow_move_constructible T \<or> \<not> copy_constructible T")
  case True
  with uninitialized_move_n_defined[OF assms, of T] show ?thesis
    by (simp add: CopyMoveNElements_def)
next
  case False
  with uninitialized_copy_n_defined[OF assms, of T] show ?thesis
    by (auto simp: CopyMoveNElements_def)
qed

lemma CopyMoveNElements_outside:
  assumes "0 < n" "slot src i \<noteq> None" "length dst \<le> j"
  shows "CopyMoveNElements T src i n dst j = Inl (Undefined (src, dst))"
proof -
  from assms(2) obtain x where x: "slot src i = Some x" by auto
  show ?thesis
    using uninitialized_move_n_outside[OF assms(1) x assms(3), of T]
      uninitialized_copy_n_outside[OF assms(1) x assms(3), of T]
    by (simp add: CopyMoveNElements_def)
qed

text \<open>vector_of\<close>

lemma vector_of_sel [simp]:
  "slots (vector_of xs c) = block_of xs c" "size_m (vector_of xs c) = length xs"
  "capacity_m (data_m (vector_of xs c)) = c" "Capacity (vector_of xs c) = c"
  by (simp_all add: vector_of_def slots_def Capacity_def)

lemma elements_vector_of [simp]: "elements (vector_of xs c) = xs"
  by (simp add: elements_def block_of_def comp_def)

lemma vector_inv_vector_of: "vector_inv (vector_of xs c) \<longleftrightarrow> length xs \<le> c"
  by (auto simp: vector_inv_def block_of_def list_all_iff)

lemma vector_inv_repr:
  assumes "vector_inv v"
  shows "v = vector_of (elements v) (Capacity v)" "length (elements v) = size_m v" "size_m v \<le> Capacity v"
proof -
  from assms have c: "capacity_m (data_m v) = length (slots v)" and n: "size_m v \<le> length (slots v)"
    and l: "list_all (\<lambda>c. c \<noteq> None) (take (size_m v) (slots v))"
    and r: "list_all (\<lambda>c. c = None) (drop (size_m v) (slots v))"
    by (simp_all add: vector_inv_def)
  show len: "length (elements v) = size_m v" using n by (simp add: elements_def)
  show "size_m v \<le> Capacity v" using c n by (simp add: Capacity_def)
  have "map Some (elements v) = take (size_m v) (slots v)"
    using l by (simp add: elements_def list_all_iff comp_def map_idI)
  moreover have "replicate (length (drop (size_m v) (slots v))) None = drop (size_m v) (slots v)"
    using r by (intro replicate_length_same) (simp add: list_all_iff)
  then have "drop (size_m v) (slots v) = replicate (length (slots v) - size_m v) None"
    by simp
  ultimately have "take (size_m v) (slots v) @ drop (size_m v) (slots v) = block_of (elements v) (Capacity v)"
    using len c by (simp add: block_of_def Capacity_def)
  then have "slots v = block_of (elements v) (Capacity v)"
    by simp
  then show "v = vector_of (elements v) (Capacity v)"
    using len by (simp add: vector_of_def slots_def Capacity_def)
qed

lemma vector_inv_nth:
  "vector_inv v \<longleftrightarrow>
     capacity_m (data_m v) = length (slots v) \<and> size_m v \<le> length (slots v) \<and>
     (\<forall>k<length (slots v). (slots v ! k = None) = (size_m v \<le> k))"
proof -
  have aux: "list_all (\<lambda>c. c \<noteq> None) (take n b) \<and> list_all (\<lambda>c. c = None) (drop n b) \<longleftrightarrow>
        (\<forall>k<length b. (b ! k = None) = (n \<le> k))" if "n \<le> length b" for n and b :: "'a block"
  proof
    assume a: "list_all (\<lambda>c. c \<noteq> None) (take n b) \<and> list_all (\<lambda>c. c = None) (drop n b)"
    show "\<forall>k<length b. (b ! k = None) = (n \<le> k)"
    proof (intro allI impI)
      fix k assume k: "k < length b"
      show "(b ! k = None) = (n \<le> k)"
      proof (cases "k < n")
        case True
        with a k that have "take n b ! k \<noteq> None" by (simp add: list_all_length)
        with True show ?thesis by simp
      next
        case False
        from a have "\<forall>i<length (drop n b). drop n b ! i = None" by (simp add: list_all_length)
        moreover from False k have "k - n < length (drop n b)" by simp
        ultimately have "drop n b ! (k - n) = None" by blast
        with False that show ?thesis by simp
      qed
    qed
  next
    assume a: "\<forall>k<length b. (b ! k = None) = (n \<le> k)"
    have "b ! k \<noteq> None" if "k < n" for k
      using a that \<open>n \<le> length b\<close> by (metis leD less_le_trans)
    moreover have "b ! (n + k) = None" if "k < length b - n" for k
      using a that by simp
    ultimately show "list_all (\<lambda>c. c \<noteq> None) (take n b) \<and> list_all (\<lambda>c. c = None) (drop n b)"
      using that by (simp add: list_all_length)
  qed
  show ?thesis unfolding vector_inv_def using aux[of "size_m v" "slots v"] by metis
qed

lemma slots_with_slots [simp]:
  "slots (with_slots b v) = b" "size_m (with_slots b v) = size_m v"
  "capacity_m (data_m (with_slots b v)) = capacity_m (data_m v)"
  "Capacity (with_slots b v) = Capacity v"
  by (simp_all add: slots_def with_slots_def Capacity_def)

lemma with_slots_same [simp]: "with_slots (slots v) v = v"
  by (simp add: slots_def with_slots_def)

lemma with_slots_vector_of: "with_slots b (vector_of xs c)\<lparr>size_m := length ys\<rparr> = vector_of ys c" if "b = block_of ys c"
  using that by (simp add: with_slots_def vector_of_def)

lemma vector_inv_with_slots:
  assumes "vector_inv v" "length s = length (slots v)"
    "\<And>k. k < length (slots v) \<Longrightarrow> (s ! k = None) = (slots v ! k = None)"
  shows "vector_inv (with_slots s v)"
  using assms by (simp add: vector_inv_nth)

text \<open>Reserve\<close>

lemma Reserve_small: "n \<le> capacity_m (data_m v) \<Longrightarrow> Reserve T n v = Inr v"
  by (simp add: Reserve_def)

lemma relocate_all:
  assumes "CopyMoveNElements T (block_of xs c) 0 (length xs) (replicate m None) 0 = Inr (s, d)"
    and "length xs \<le> c"
  shows "d = block_of xs m" "length xs \<le> m"
proof -
  note r = CopyMoveNElements_Inr[OF assms(1)]
  from r have len: "length d = m" by simp
  from r have "\<forall>k<length xs. k < m" by simp
  then show n: "length xs \<le> m" by (cases xs rule: rev_cases) (auto simp: not_less[symmetric])
  from r have "\<And>k. k < m \<Longrightarrow> d ! k = (if k < length xs then slot (block_of xs c) k else None)"
    by simp
  then show "d = block_of xs m"
    using len n assms(2) by (intro block_eqI) (simp_all add: slot_block_of)
qed

lemma relocated_live:
  assumes "CopyMoveNElements T (block_of xs c) i n dst j = Inr (s, d)" and "length xs \<le> c"
  shows "\<forall>k. 0 \<le> k \<and> k < 0 + length xs \<longrightarrow> slot s k \<noteq> None"
proof (intro allI impI)
  fix k assume "0 \<le> k \<and> k < 0 + length xs"
  then have k: "k < length xs" by simp
  note r = CopyMoveNElements_Inr[OF assms(1)]
  from r k assms(2) have "k < length s" "(s ! k = None) = (block_of xs c ! k = None)"
    by (simp_all add: length_block_of)
  with k assms(2) show "slot s k \<noteq> None" by (simp add: slot_def nth_block_of)
qed

text \<open>
  The vector with elements \<open>xs\<close> in an allocation of \<open>m\<close> slots whose recorded capacity is
  \<open>n\<close>: what a wrapped byte count produces when \<open>m < n\<close>.
\<close>

lemma elements_recorded:
  "length xs \<le> m \<Longrightarrow>
   elements \<lparr>data_m = \<lparr>buffer_m = block_of xs m, capacity_m = n\<rparr>, size_m = length xs\<rparr> = xs"
  by (simp add: elements_def slots_def block_of_def comp_def)

lemma vector_of_data_update:
  "(vector_of xs c)\<lparr>data_m := d\<rparr> = \<lparr>data_m = d, size_m = length xs\<rparr>"
  "(vector_of xs c)\<lparr>data_m := d, size_m := k\<rparr> = \<lparr>data_m = d, size_m = k\<rparr>"
  "data_m (vector_of xs c) = \<lparr>buffer_m = block_of xs c, capacity_m = c\<rparr>"
  by (simp_all add: vector_of_def)

lemma Reserve_unfold:
  assumes "c < n" "RawMemory_sized T n = Some nd"
  shows "Reserve T n (vector_of xs c) =
     (case CopyMoveNElements T (block_of xs c) 0 (length xs) (buffer_m nd) 0 of
        Inl f \<Rightarrow> Inl (map_fault (\<lambda>(old, new). with_slots old (vector_of xs c)) f)
      | Inr (old, new) \<Rightarrow>
          (case destroy_n old 0 (length xs) of
             None \<Rightarrow> Inl (Undefined (with_slots old (vector_of xs c)))
           | Some old' \<Rightarrow>
               Inr \<lparr>data_m = \<lparr>buffer_m = new, capacity_m = n\<rparr>, size_m = length xs\<rparr>))"
proof -
  from RawMemory_sized_Some[OF assms(2)] obtain b where nd: "nd = \<lparr>buffer_m = b, capacity_m = n\<rparr>"
    by (cases nd) auto
  show ?thesis
    using assms unfolding Reserve_def RawMemory_Swap_def nd
    by (simp add: vector_of_data_update del: destroy_n.simps
        cong: sum.case_cong option.case_cong)
qed

lemma Reserve_bad_alloc:
  "c < n \<Longrightarrow> RawMemory_sized T n = None \<Longrightarrow> Reserve T n (vector_of xs c) = Inl (Thrown (vector_of xs c))"
  by (simp add: Reserve_def)

lemma Reserve_Inr:
  assumes "length xs \<le> c" "c < n" "Reserve T n (vector_of xs c) = Inr v'"
  shows "\<exists>m. Allocate T n = Some (replicate m None) \<and> length xs \<le> m \<and> m \<le> n \<and>
     v' = \<lparr>data_m = \<lparr>buffer_m = block_of xs m, capacity_m = n\<rparr>, size_m = length xs\<rparr>"
proof -
  from assms(2,3) obtain nd where nd: "RawMemory_sized T n = Some nd"
    by (cases "RawMemory_sized T n") (auto simp: Reserve_def)
  note a = RawMemory_sized_Some[OF nd]
  define m where "m = length (buffer_m nd)"
  from a have b: "buffer_m nd = replicate m None" and mn: "m \<le> n"
    and al: "Allocate T n = Some (replicate m None)" by (simp_all add: m_def)
  from assms(3) obtain s d where
    cm: "CopyMoveNElements T (block_of xs c) 0 (length xs) (replicate m None) 0 = Inr (s, d)"
    and v': "v' = \<lparr>data_m = \<lparr>buffer_m = d, capacity_m = n\<rparr>, size_m = length xs\<rparr>"
    unfolding Reserve_unfold[OF assms(2) nd] b
    by (auto split: sum.splits prod.splits option.splits)
  from relocate_all[OF cm assms(1)] v' al mn show ?thesis by auto
qed

lemma Reserve_Inr_fits:
  assumes "length xs \<le> c" "c < n" "Reserve T n (vector_of xs c) = Inr v'" "fits T n"
  shows "v' = vector_of xs n"
proof -
  from Reserve_Inr[OF assms(1-3)] obtain m where
    m: "Allocate T n = Some (replicate m None)"
    and v': "v' = \<lparr>data_m = \<lparr>buffer_m = block_of xs m, capacity_m = n\<rparr>, size_m = length xs\<rparr>"
    by auto
  from Allocate_fits[OF assms(4)] m have "m = n" by auto
  with v' show ?thesis by (simp add: vector_of_def)
qed

lemma Reserve_ok:
  assumes "nothrow T" "length xs \<le> c" "c < n" "allocates T n"
  shows "Reserve T n (vector_of xs c) = Inr (vector_of xs n)"
proof -
  note nd = RawMemory_sized_allocates[OF assms(4)]
  have "\<exists>r. CopyMoveNElements T (block_of xs c) 0 (length xs) (replicate n None) 0 = Inr r"
    using assms by (intro CopyMoveNElements_ok) (simp_all add: slot_block_of)
  then obtain s d where
    cm: "CopyMoveNElements T (block_of xs c) 0 (length xs) (replicate n None) 0 = Inr (s, d)" by auto
  have "\<exists>s'. destroy_n s 0 (length xs) = Some s'"
    using relocated_live[OF cm assms(2)] destroy_n_live[of 0 "length xs" s] by auto
  with cm relocate_all(1)[OF cm assms(2)] show ?thesis
    unfolding Reserve_unfold[OF assms(3) nd] by (auto simp: vector_of_def)
qed

lemma Reserve_Thrown:
  assumes "length xs \<le> c" "Reserve T n (vector_of xs c) = Inl (Thrown v')"
  shows "vector_inv v' \<and> Capacity v' = c \<and> size_m v' = length xs \<and>
         (copy_constructible T \<or> nothrow_move_constructible T \<longrightarrow> v' = vector_of xs c)"
proof -
  let ?v = "vector_of xs c"
  have inv: "vector_inv ?v" using assms(1) by (simp add: vector_inv_vector_of)
  from assms(2) have cn: "c < n" by (auto simp: Reserve_def split: if_splits)
  show ?thesis
  proof (cases "RawMemory_sized T n")
    case None
    with assms(2) cn have "v' = ?v" by (simp add: Reserve_bad_alloc)
    with inv show ?thesis by simp
  next
    case (Some nd)
    note a = RawMemory_sized_Some[OF Some]
    from assms(2) obtain f where
      cm: "CopyMoveNElements T (block_of xs c) 0 (length xs) (buffer_m nd) 0 = Inl f"
      and f: "map_fault (\<lambda>(old, new). with_slots old ?v) f = Thrown v'"
      unfolding Reserve_unfold[OF cn Some]
      by (auto split: sum.splits prod.splits option.splits)
    from f obtain s d where fs: "f = Thrown (s, d)" and v': "v' = with_slots s ?v"
      by (cases f) auto
    have raw: "\<forall>k. 0 \<le> k \<and> k < 0 + length xs \<longrightarrow> slot (buffer_m nd) k = None"
      using a by (metis slot_def nth_replicate)
    note r = CopyMoveNElements_Thrown[OF cm[unfolded fs] raw]
    have "vector_inv v'" unfolding v'
      using r inv by (intro vector_inv_with_slots) simp_all
    moreover have "v' = ?v" if "copy_constructible T \<or> nothrow_move_constructible T"
    proof -
      from r that have "s = slots ?v" by simp
      then show ?thesis unfolding v' by (simp only: with_slots_same)
    qed
    ultimately show ?thesis by (simp add: v')
  qed
qed

text \<open>When the byte count does not wrap, \<open>Reserve\<close> returns or throws.\<close>

lemma Reserve_defined:
  assumes "length xs \<le> c" "c < n" "fits T n"
  shows "(\<exists>v'. Reserve T n (vector_of xs c) = Inr v') \<or>
         (\<exists>v'. Reserve T n (vector_of xs c) = Inl (Thrown v'))"
proof (cases "RawMemory_sized T n")
  case None
  with assms(2) show ?thesis by (simp add: Reserve_bad_alloc)
next
  case (Some nd)
  from RawMemory_sized_fits[OF assms(3) Some] have b: "buffer_m nd = replicate n None" by simp
  have "(\<exists>r. CopyMoveNElements T (block_of xs c) 0 (length xs) (replicate n None) 0 = Inr r) \<or>
        (\<exists>r. CopyMoveNElements T (block_of xs c) 0 (length xs) (replicate n None) 0 = Inl (Thrown r))"
    using assms by (intro CopyMoveNElements_defined) (simp_all add: slot_block_of)
  then show ?thesis
  proof
    assume "\<exists>r. CopyMoveNElements T (block_of xs c) 0 (length xs) (replicate n None) 0 = Inr r"
    then obtain s d where
      cm: "CopyMoveNElements T (block_of xs c) 0 (length xs) (replicate n None) 0 = Inr (s, d)"
      by auto
    have "\<exists>s'. destroy_n s 0 (length xs) = Some s'"
      using relocated_live[OF cm assms(1)] destroy_n_live[of 0 "length xs" s] by auto
    with cm show ?thesis unfolding Reserve_unfold[OF assms(2) Some] b by auto
  next
    assume "\<exists>r. CopyMoveNElements T (block_of xs c) 0 (length xs) (replicate n None) 0 = Inl (Thrown r)"
    then show ?thesis unfolding Reserve_unfold[OF assms(2) Some] b by auto
  qed
qed

text \<open>When the byte count wraps, the elements are relocated past the end of the new block.\<close>

lemma Reserve_outside:
  assumes "length xs \<le> c" "c < n" "xs \<noteq> []" "RawMemory_sized T n = Some \<lparr>buffer_m = [], capacity_m = n\<rparr>"
  shows "Reserve T n (vector_of xs c) = Inl (Undefined (vector_of xs c))"
proof -
  have "CopyMoveNElements T (block_of xs c) 0 (length xs) [] 0 = Inl (Undefined (block_of xs c, []))"
    using assms(1,3) by (intro CopyMoveNElements_outside) (simp_all add: slot_block_of)
  then show ?thesis
    unfolding Reserve_unfold[OF assms(2,4)]
    by (simp del: with_slots_same add: with_slots_same[of "vector_of xs c", simplified])
qed

text \<open>Resize\<close>

lemma destroy_tail:
  assumes len: "length b = c" and m: "length ys \<le> m" "m \<le> c"
    and ys: "\<And>k. k < length ys \<Longrightarrow> b ! k = Some (ys ! k)"
    and live: "\<And>k. k < m \<Longrightarrow> b ! k \<noteq> None"
    and raw: "\<And>k. m \<le> k \<Longrightarrow> k < c \<Longrightarrow> b ! k = None"
  shows "destroy_n b (length ys) (m - length ys) = Some (block_of ys c)"
proof -
  have "\<forall>k. length ys \<le> k \<and> k < length ys + (m - length ys) \<longrightarrow> slot b k \<noteq> None"
    using len m live by (simp add: slot_def)
  from destroy_n_live[OF this] obtain b' where b': "destroy_n b (length ys) (m - length ys) = Some b'"
    "length b' = c"
    "\<And>k. k < c \<Longrightarrow> b' ! k = (if length ys \<le> k \<and> k < length ys + (m - length ys) then None else b ! k)"
    using len by auto
  have "b' = block_of ys c"
  proof (rule block_eqI)
    show "length b' = c" by (rule b')
    show "length ys \<le> c" using m by simp
    fix k assume k: "k < c"
    show "b' ! k = (if k < length ys then Some (ys ! k) else None)"
      using b'(3)[OF k] ys[of k] raw[OF _ k] m by auto
  qed
  with b'(1) show ?thesis by simp
qed

lemma destroy_n_block_of:
  assumes "n \<le> length xs" "length xs \<le> c"
  shows "destroy_n (block_of xs c) n (length xs - n) = Some (block_of (take n xs) c)"
  using destroy_tail[of "block_of xs c" c "take n xs" "length xs"] assms
  by (simp add: length_block_of nth_block_of min_absorb2)

lemma value_construct_block_of:
  assumes "uninitialized_value_construct_n T (block_of xs c) (length xs) m = Inr b" "length xs \<le> c"
  shows "m = 0 \<and> b = block_of xs c \<or>
         (\<exists>d. value_init T = Some d \<and> length xs + m \<le> c \<and> b = block_of (xs @ replicate m d) c)"
proof (cases m)
  case 0
  with assms show ?thesis by simp
next
  case (Suc m')
  note r = uninitialized_value_construct_n_Inr[OF assms(1)]
  from r Suc obtain d where d: "value_init T = Some d" by auto
  from r Suc have "length xs + m' < length (block_of xs c)" by auto
  with assms(2) Suc have le: "length xs + m \<le> c" by (simp add: length_block_of)
  from r assms(2) have len: "length b = c" by (simp add: length_block_of)
  have "b = block_of (xs @ replicate m d) c"
    using len le r d assms(2)
    by (intro block_eqI) (auto simp: length_block_of nth_block_of nth_append)
  with d le show ?thesis by blast
qed

lemma Resize_shrink:
  assumes "n \<le> length xs" "length xs \<le> c"
  shows "Resize T n (vector_of xs c) = Inr (vector_of (take n xs) c)"
proof (cases "n = length xs")
  case True
  then show ?thesis by (simp add: Resize_def)
next
  case False
  with assms have "n < length xs" by simp
  moreover have "with_slots (block_of (take n xs) c) (vector_of xs c)\<lparr>size_m := n\<rparr> = vector_of (take n xs) c"
    using assms by (simp add: with_slots_def vector_of_def min_absorb2)
  ultimately show ?thesis using assms
    by (simp add: Resize_def destroy_n_block_of)
qed

text \<open>
  A growing \<open>Resize\<close> that returns has found room for all \<open>n\<close> elements, so the byte
  count of its allocation did not wrap.
\<close>

lemma Resize_reserved:
  assumes "length xs < n" "length xs \<le> c" "Reserve T n (vector_of xs c) = Inr v1"
    and "uninitialized_value_construct_n T (slots v1) (length xs) (n - length xs) = Inr b"
  shows "v1 = vector_of xs (max c n) \<and> (c < n \<longrightarrow> fits T n)"
proof (cases "n \<le> c")
  case True
  with assms(3) show ?thesis by (simp add: Reserve_small max_absorb1)
next
  case False
  then have cn: "c < n" by simp
  from Reserve_Inr[OF assms(2) cn assms(3)] obtain m where
    m: "Allocate T n = Some (replicate m None)" "length xs \<le> m" "m \<le> n"
    and v1: "v1 = \<lparr>data_m = \<lparr>buffer_m = block_of xs m, capacity_m = n\<rparr>, size_m = length xs\<rparr>"
    by auto
  from v1 have sl: "slots v1 = block_of xs m" by (simp add: slots_def)
  note r = uninitialized_value_construct_n_Inr[OF assms(4)[unfolded sl]]
  from assms(1) have "n - length xs - 1 < n - length xs" by simp
  with r have "length xs + (n - length xs - 1) < length (block_of xs m)" by blast
  with m(2) assms(1) have "n \<le> m" by (simp add: length_block_of)
  with m(3) have mn: "m = n" by simp
  from Allocate_room_fits[OF m(1)[unfolded mn]] assms(1) have "fits T n" by simp
  with v1 mn cn show ?thesis by (simp add: vector_of_def max_absorb2)
qed

lemma Resize_grow_Inr:
  assumes "length xs < n" "length xs \<le> c" "Resize T n (vector_of xs c) = Inr v'"
  shows "\<exists>d. value_init T = Some d \<and> v' = vector_of (xs @ replicate (n - length xs) d) (max c n) \<and>
             (c < n \<longrightarrow> fits T n)"
proof -
  from assms obtain v1 where r: "Reserve T n (vector_of xs c) = Inr v1"
    by (auto simp: Resize_def split: sum.splits)
  have s1: "size_m v1 = length xs"
  proof (cases "n \<le> c")
    case True
    with r show ?thesis by (auto simp: Reserve_small)
  next
    case False
    with Reserve_Inr[OF assms(2) _ r] show ?thesis by auto
  qed
  with assms r obtain b where
    b: "uninitialized_value_construct_n T (slots v1) (length xs) (n - length xs) = Inr b"
    and v': "v' = (with_slots b v1)\<lparr>size_m := n\<rparr>"
    by (auto simp: Resize_def split: sum.splits)
  from Resize_reserved[OF assms(1,2) r b]
  have v1: "v1 = vector_of xs (max c n)" and ft: "c < n \<longrightarrow> fits T n" by simp_all
  from assms(2) have le: "length xs \<le> max c n" by simp
  from value_construct_block_of[OF b[unfolded v1 vector_of_sel] le] assms(1)
  obtain d where d: "value_init T = Some d"
    and "b = block_of (xs @ replicate (n - length xs) d) (max c n)" by auto
  with v' v1 assms(1) have "v' = vector_of (xs @ replicate (n - length xs) d) (max c n)"
    by (simp add: with_slots_def vector_of_def)
  with d ft show ?thesis by blast
qed

lemma Reserve_within:
  assumes "length xs \<le> c" "n \<le> c \<or> allocates T n" "nothrow T"
  shows "Reserve T n (vector_of xs c) = Inr (vector_of xs (max c n))"
proof (cases "n \<le> c")
  case True
  then show ?thesis by (simp add: Reserve_small max_absorb1)
next
  case False
  with Reserve_ok[OF assms(3,1), of n] assms(2) show ?thesis by (simp add: max_absorb2)
qed

lemma Resize_grow_ok:
  assumes "nothrow T" "value_init T = Some d" "length xs < n" "length xs \<le> c"
    and "n \<le> c \<or> allocates T n"
  shows "Resize T n (vector_of xs c) = Inr (vector_of (xs @ replicate (n - length xs) d) (max c n))"
proof -
  note r = Reserve_within[OF assms(4,5,1)]
  have "length xs + (n - length xs) \<le> length (block_of xs (max c n))"
    using assms(3,4) by (simp add: length_block_of)
  from uninitialized_value_construct_n_ok[OF assms(2) this]
  obtain b where "uninitialized_value_construct_n T (block_of xs (max c n)) (length xs) (n - length xs) = Inr b"
    by blast
  with r assms(3) obtain v' where v': "Resize T n (vector_of xs c) = Inr v'"
    by (simp add: Resize_def)
  from Resize_grow_Inr[OF assms(3,4) v'] assms(2) v' show ?thesis by auto
qed

lemma Resize_Thrown:
  assumes "length xs \<le> c" "Resize T n (vector_of xs c) = Inl (Thrown v')" "n \<le> c \<or> fits T n"
  shows "vector_inv v' \<and> size_m v' = length xs \<and> c \<le> Capacity v'"
proof -
  from assms(2) have n: "length xs < n"
    by (auto simp: Resize_def split: if_splits option.splits)
  show ?thesis
  proof (cases "Reserve T n (vector_of xs c)")
    case (Inl f)
    with assms(2) n have "Reserve T n (vector_of xs c) = Inl (Thrown v')"
      by (simp add: Resize_def)
    from Reserve_Thrown[OF assms(1) this] show ?thesis by simp
  next
    case (Inr v1)
    have v1: "v1 = vector_of xs (max c n)"
    proof (cases "n \<le> c")
      case True
      with Inr show ?thesis by (simp add: Reserve_small max_absorb1)
    next
      case False
      with Reserve_Inr_fits[OF assms(1) _ Inr] assms(3) show ?thesis by (simp add: max_absorb2)
    qed
    from assms(2) n Inr v1 obtain f where
      f: "uninitialized_value_construct_n T (block_of xs (max c n)) (length xs) (n - length xs) = Inl f"
      and m: "map_fault (\<lambda>b. with_slots b v1) f = Thrown v'"
      by (auto simp: Resize_def split: sum.splits)
    from m obtain b where fb: "f = Thrown b" and v': "v' = with_slots b v1" by (cases f) auto
    have "\<forall>k. length xs \<le> k \<and> k < length xs + (n - length xs) \<longrightarrow> slot (block_of xs (max c n)) k = None"
      using assms(1) by (simp add: slot_block_of)
    from uninitialized_value_construct_n_Thrown[OF f[unfolded fb] this]
    have "b = slots v1" by (simp add: v1)
    with v' have "v' = v1" by (simp only: with_slots_same)
    with v1 assms(1) show ?thesis by (simp add: vector_inv_vector_of)
  qed
qed

text \<open>When the byte count does not wrap, \<open>Resize\<close> returns or throws.\<close>

lemma Resize_defined:
  assumes "length xs \<le> c" "n \<le> c \<or> fits T n"
  shows "(\<exists>v'. Resize T n (vector_of xs c) = Inr v') \<or>
         (\<exists>v'. Resize T n (vector_of xs c) = Inl (Thrown v'))"
proof (cases "n \<le> length xs")
  case True
  from Resize_shrink[OF True assms(1)] show ?thesis by simp
next
  case False
  then have n: "length xs < n" by simp
  have "(\<exists>v'. Reserve T n (vector_of xs c) = Inr v') \<or>
        (\<exists>v'. Reserve T n (vector_of xs c) = Inl (Thrown v'))"
  proof (cases "n \<le> c")
    case True
    then show ?thesis by (simp add: Reserve_small)
  next
    case False
    with Reserve_defined[OF assms(1), of n T] assms(2) show ?thesis by simp
  qed
  then show ?thesis
  proof
    assume "\<exists>v'. Reserve T n (vector_of xs c) = Inl (Thrown v')"
    with n show ?thesis by (auto simp: Resize_def)
  next
    assume "\<exists>v'. Reserve T n (vector_of xs c) = Inr v'"
    then obtain v1 where r: "Reserve T n (vector_of xs c) = Inr v1" by blast
    have v1: "v1 = vector_of xs (max c n)"
    proof (cases "n \<le> c")
      case True
      with r show ?thesis by (simp add: Reserve_small max_absorb1)
    next
      case False
      with Reserve_Inr_fits[OF assms(1) _ r] assms(2) show ?thesis by (simp add: max_absorb2)
    qed
    have "length xs + (n - length xs) \<le> length (block_of xs (max c n))"
      using n assms(1) by (simp add: length_block_of)
    from uninitialized_value_construct_n_defined[OF this, of T]
    show ?thesis using r n by (auto simp: Resize_def v1)
  qed
qed

text \<open>A count whose byte size wraps to 0: \<open>Resize\<close> writes outside the new block.\<close>

lemma Resize_outside:
  assumes "length xs \<le> c" "c < n"
    and "RawMemory_sized T n = Some \<lparr>buffer_m = [], capacity_m = n\<rparr>"
  shows "\<exists>v'. Resize T n (vector_of xs c) = Inl (Undefined v')"
proof (cases "xs = []")
  case False
  from Reserve_outside[OF assms(1,2) False assms(3)] assms(1,2) show ?thesis
    by (simp add: Resize_def)
next
  case True
  have cm: "CopyMoveNElements T (block_of [] c) 0 0 [] 0 = Inr (block_of [] c, [])"
    by (simp add: CopyMoveNElements_def)
  have r: "Reserve T n (vector_of [] c) =
      Inr \<lparr>data_m = \<lparr>buffer_m = [], capacity_m = n\<rparr>, size_m = 0\<rparr>"
    using Reserve_unfold[OF assms(2,3), of "[]"] cm by simp
  have "uninitialized_value_construct_n T [] 0 n = Inl (Undefined [])"
    using assms(2) by (intro uninitialized_value_construct_n_outside) simp_all
  with r True assms(2) show ?thesis by (simp add: Resize_def slots_def)
qed

text \<open>Erase and PopBack\<close>

lemma Erase_ok:
  assumes "pos < length xs" "length xs \<le> c"
  shows "Erase T pos (vector_of xs c) = Inr (vector_of (take pos xs @ drop (Suc pos) xs) c, pos)"
proof -
  let ?b = "block_of xs c"
  have "\<exists>b'. std_move T ?b (Suc pos) (length xs) pos = Inr (b', length xs - 1) \<and> length b' = length ?b \<and>
     (\<forall>k<length ?b. b' ! k =
        (if pos \<le> k \<and> k < length xs - 1 then ?b ! Suc k
         else if k = length xs - 1 \<and> Suc pos < length xs then map_option (moved_from T) (?b ! k)
         else ?b ! k))"
    using assms by (intro std_move_ok[OF refl refl]) (simp_all add: length_block_of nth_block_of)
  then obtain b' where b': "std_move T ?b (Suc pos) (length xs) pos = Inr (b', length xs - 1)"
    "length b' = c"
    "\<And>k. k < c \<Longrightarrow> b' ! k =
        (if pos \<le> k \<and> k < length xs - 1 then ?b ! Suc k
         else if k = length xs - 1 \<and> Suc pos < length xs then map_option (moved_from T) (?b ! k)
         else ?b ! k)"
    using assms(2) by (auto simp: length_block_of)
  let ?ys = "take pos xs @ drop (Suc pos) xs"
  have len: "length ?ys = length xs - 1" using assms(1) by simp
  have lc: "length xs - 1 < c" using assms by simp
  have "slot b' (length xs - 1) \<noteq> None"
    using b'(2) b'(3)[OF lc] lc assms by (auto simp: slot_def nth_block_of)
  then have del: "destroy_at b' (length xs - 1) = Some (b'[length xs - 1 := None])"
    by (rule destroy_at_live)
  have "b'[length xs - 1 := None] = block_of ?ys c"
  proof (rule block_eqI)
    show "length (b'[length xs - 1 := None]) = c" using b'(2) by simp
    show "length ?ys \<le> c" using assms by simp
    fix k assume k: "k < c"
    show "b'[length xs - 1 := None] ! k = (if k < length ?ys then Some (?ys ! k) else None)"
      using k b'(2) b'(3)[OF k] assms
      by (auto simp: nth_list_update nth_block_of nth_append min_def)
  qed
  then have "with_slots (b'[length xs - 1 := None]) (vector_of xs c)\<lparr>size_m := length xs - 1\<rparr>
      = vector_of ?ys c"
    using len by (simp add: with_slots_def vector_of_def)
  with b'(1) del assms show ?thesis by (simp add: Erase_def)
qed

lemma PopBack_ok:
  assumes "xs \<noteq> []" "length xs \<le> c"
  shows "PopBack (vector_of xs c) = Inr (vector_of (butlast xs) c)"
proof -
  from assms have l: "0 < length xs" "length xs - 1 < c" by (cases xs; simp)+
  then have "slot (block_of xs c) (length xs - 1) \<noteq> None"
    using assms by (simp add: slot_block_of)
  then have del: "destroy_at (block_of xs c) (length xs - 1) = Some ((block_of xs c)[length xs - 1 := None])"
    by (rule destroy_at_live)
  have "(block_of xs c)[length xs - 1 := None] = block_of (butlast xs) c"
    using assms
    by (intro block_eqI)
       (auto simp: length_block_of nth_block_of nth_list_update nth_butlast)
  then have "with_slots ((block_of xs c)[length xs - 1 := None]) (vector_of xs c)\<lparr>size_m := length xs - 1\<rparr>
      = vector_of (butlast xs) c"
    by (simp add: with_slots_def vector_of_def)
  with l del show ?thesis by (simp add: PopBack_def)
qed

lemma CopyMoveNElements_Inr_copy:
  "CopyMoveNElements T src i n dst j = Inr (s, d) \<Longrightarrow>
   \<not> nothrow_move_constructible T \<Longrightarrow> copy_constructible T \<Longrightarrow> s = src"
  by (auto simp: CopyMoveNElements_def split: sum.splits)

lemma CopyMoveNElements_nothrow_move:
  assumes "nothrow_move_constructible T"
  shows "CopyMoveNElements T src i n dst j \<noteq> Inl (Thrown sd)"
proof -
  from assms have "\<forall>x. move_construct T x \<noteq> None" by (simp add: move_construct_def)
  from uninitialized_move_n_not_Thrown[OF this] assms show ?thesis
    by (simp add: CopyMoveNElements_def)
qed

text \<open>Emplace: the growing path\<close>

lemma Emplace_fill_Inr:
  assumes fill: "Emplace_fill T i args (block_of xs c) (length xs) \<lparr>buffer_m = replicate m None, capacity_m = n\<rparr> = Inr (s, d)"
    and i: "i \<le> length xs" and c: "length xs \<le> c"
  shows "\<exists>x. args = Some x \<and> length xs < m \<and> d = block_of (take i xs @ x # drop i xs) m"
proof -
  let ?src = "block_of xs c"
  from fill obtain x where x: "args = Some x" "i \<le> n" and "i < m"
    by (auto simp: Emplace_fill_def split: if_splits option.splits)
  let ?nb = "(replicate m None)[i := Some x]"
  from fill x \<open>i < m\<close> obtain s1 d1 where
    p: "CopyMoveNElements T ?src 0 i ?nb 0 = Inr (s1, d1)"
    by (auto simp: Emplace_fill_def
        split: if_splits sum.splits fault.splits prod.splits option.splits)
  note rp = CopyMoveNElements_Inr[OF p]
  from rp have d1: "length d1 = m" "\<And>k. k < m \<Longrightarrow> d1 ! k = (if k < i then slot ?src k else ?nb ! k)"
    and s1: "length s1 = length ?src" "\<And>k. k < length ?src \<Longrightarrow> i \<le> k \<Longrightarrow> s1 ! k = ?src ! k"
    by simp_all
  let ?ys = "take i xs @ x # drop i xs"
  have len: "length ?ys = Suc (length xs)" using i by simp
  show ?thesis
  proof (cases "i = length xs")
    case True
    with fill x \<open>i < m\<close> p have "d = d1"
      by (simp add: Emplace_fill_def)
    moreover have "d1 = block_of ?ys m"
    proof (rule block_eqI)
      show "length d1 = m" by (rule d1)
      show "length ?ys \<le> m" using len True \<open>i < m\<close> by simp
      fix k assume k: "k < m"
      show "d1 ! k = (if k < length ?ys then Some (?ys ! k) else None)"
        using d1(2)[OF k] k True c
        by (auto simp: slot_block_of nth_list_update nth_append)
    qed
    ultimately show ?thesis using x(1) True \<open>i < m\<close> by simp
  next
    case False
    with fill x \<open>i < m\<close> p have
      q: "CopyMoveNElements T s1 i (length xs - i) d1 (i + 1) = Inr (s, d)"
      by (auto simp: Emplace_fill_def
          split: sum.splits fault.splits prod.splits option.splits)
    note rq = CopyMoveNElements_Inr[OF q]
    from False i have il: "i < length xs" by simp
    from il have "length xs - i - 1 < length xs - i" by simp
    with rq have "i + 1 + (length xs - i - 1) < length d1" by blast
    with d1(1) il have m: "length xs < m" by simp
    from rq d1(1) have d: "length d = m"
      "\<And>k. k < m \<Longrightarrow> d ! k = (if i + 1 \<le> k \<and> k < i + 1 + (length xs - i) then slot s1 (i + (k - (i + 1))) else d1 ! k)"
      by simp_all
    have "d = block_of ?ys m"
    proof (rule block_eqI)
      show "length d = m" by (rule d)
      show "length ?ys \<le> m" using len m by simp
      fix k assume k: "k < m"
      consider "k < i" | "k = i" | "i < k" "k \<le> length xs" | "length xs < k" by linarith
      then show "d ! k = (if k < length ?ys then Some (?ys ! k) else None)"
      proof cases
        case 1
        with d(2)[OF k] d1(2)[OF k] il c show ?thesis
          by (simp add: slot_block_of nth_append)
      next
        case 2
        with d(2)[OF k] d1(2)[OF k] k il show ?thesis
          by (simp add: nth_append)
      next
        case 3
        then have e: "i + (k - (i + 1)) = k - 1" "k - 1 < length xs" "i \<le> k - 1" by simp_all
        with c have "slot s1 (k - 1) = ?src ! (k - 1)"
          using s1 by (simp add: slot_def length_block_of)
        with 3 d(2)[OF k] e c il show ?thesis
          by (simp add: nth_block_of nth_append min_def Suc_diff_le)
      next
        case 4
        with d(2)[OF k] d1(2)[OF k] k il show ?thesis
          by simp
      qed
    qed
    with x m show ?thesis by simp
  qed
qed

lemma Emplace_fill_ok:
  assumes nt: "nothrow T" and i: "i \<le> length xs" and c: "length xs \<le> c" and n: "length xs < n"
  shows "\<exists>r. Emplace_fill T i (Some x) (block_of xs c) (length xs) \<lparr>buffer_m = replicate n None, capacity_m = n\<rparr> = Inr r"
proof -
  let ?src = "block_of xs c"
  let ?nb = "(replicate n None)[i := Some x]"
  have "\<exists>r. CopyMoveNElements T ?src 0 i ?nb 0 = Inr r"
    using nt i c n by (intro CopyMoveNElements_ok) (simp_all add: slot_block_of)
  then obtain s1 d1 where p: "CopyMoveNElements T ?src 0 i ?nb 0 = Inr (s1, d1)" by auto
  note rp = CopyMoveNElements_Inr[OF p]
  show ?thesis
  proof (cases "i = length xs")
    case True
    with p n show ?thesis
      by (simp add: Emplace_fill_def)
  next
    case False
    have "\<exists>r. CopyMoveNElements T s1 i (length xs - i) d1 (i + 1) = Inr r"
    proof (rule CopyMoveNElements_ok[OF nt])
      show "\<forall>k<length xs - i. slot s1 (i + k) \<noteq> None"
      proof (intro allI impI)
        fix k assume "k < length xs - i"
        then have k: "i + k < length xs" by simp
        with c have "i + k < length ?src" by (simp add: length_block_of)
        with rp have "(s1 ! (i + k) = None) = (?src ! (i + k) = None)" "i + k < length s1" by simp_all
        with k c show "slot s1 (i + k) \<noteq> None" by (simp add: slot_def nth_block_of)
      qed
      show "i + 1 + (length xs - i) \<le> length d1" using rp i n by simp
    qed
    then obtain r where "CopyMoveNElements T s1 i (length xs - i) d1 (i + 1) = Inr r" by auto
    with p False i n show ?thesis
      by (simp add: Emplace_fill_def)
  qed
qed

lemma Emplace_fill_Thrown:
  assumes fill: "Emplace_fill T i args old sz \<lparr>buffer_m = replicate m None, capacity_m = n\<rparr> = Inl (Thrown (s, d))"
  shows "list_all (\<lambda>c. c = None) d \<and> length s = length old \<and>
         (\<forall>k<length old. (s ! k = None) = (old ! k = None)) \<and>
         (args = None \<or> copy_constructible T \<or> nothrow_move_constructible T \<longrightarrow> s = old)"
proof (cases args)
  case None
  with fill show ?thesis
    by (auto simp: Emplace_fill_def list_all_length split: if_splits)
next
  case (Some x)
  with fill have "i < m" and cap: "i \<le> n"
    by (auto simp: Emplace_fill_def split: if_splits)
  let ?nb = "(replicate m None)[i := Some x]"
  have nb: "length ?nb = m" "\<And>k. k < m \<Longrightarrow> ?nb ! k = (if k = i then Some x else None)"
    by (simp_all add: nth_list_update)
  show ?thesis
  proof (cases "CopyMoveNElements T old 0 i ?nb 0")
    case (Inl f)
    with fill Some \<open>i < m\<close> cap obtain d' where f: "f = Thrown (s, d')"
      and d: "destroy_at d' i = Some d"
      by (cases f)
         (auto simp: Emplace_fill_def split: option.splits)
    have "\<forall>k. 0 \<le> k \<and> k < 0 + i \<longrightarrow> slot ?nb k = None"
      using \<open>i < m\<close> by (simp add: slot_def)
    note r = CopyMoveNElements_Thrown[OF Inl[unfolded f] this]
    from r have "slot d' i = Some x" using \<open>i < m\<close> by (simp add: slot_def)
    with d have "d = d'[i := None]" by (simp add: destroy_at_def)
    with r \<open>i < m\<close> have "d = replicate m None"
      by (simp add: list_update_same_conv)
    then have "list_all (\<lambda>c. c = None) d" by (simp add: list_all_length)
    with r Some show ?thesis by simp
  next
    case (Inr r1)
    obtain s1 d1 where r1: "r1 = (s1, d1)" by (cases r1)
    note p = Inr[unfolded r1]
    note rp = CopyMoveNElements_Inr[OF p]
    from rp have d1: "length d1 = m" "\<And>k. k < m \<Longrightarrow> i < k \<Longrightarrow> d1 ! k = None"
      by simp_all
    from fill Some \<open>i < m\<close> cap p obtain f where ne: "i \<noteq> sz"
      and q: "CopyMoveNElements T s1 i (sz - i) d1 (i + 1) = Inl f"
      and m: "(case f of Thrown (old'', new') \<Rightarrow>
                 (case destroy_n new' 0 (i + 1) of None \<Rightarrow> Inl (Undefined (old'', new'))
                  | Some new'' \<Rightarrow> Inl (Thrown (old'', new'')))
               | _ \<Rightarrow> Inl f) = (Inl (Thrown (s, d)) :: ('a block \<times> 'a block) fault + 'a block \<times> 'a block)"
      by (cases "CopyMoveNElements T s1 i (sz - i) d1 (i + 1)")
         (auto simp: Emplace_fill_def
           split: if_splits fault.splits prod.splits option.splits)
    from m obtain d' where f: "f = Thrown (s, d')" and d: "destroy_n d' 0 (i + 1) = Some d"
      by (cases f) (auto split: option.splits)
    have "\<forall>k. i + 1 \<le> k \<and> k < i + 1 + (sz - i) \<longrightarrow> slot d1 k = None"
      using d1 by (simp add: slot_def)
    note rq = CopyMoveNElements_Thrown[OF q[unfolded f] this]
    from rq d have dd: "destroy_n d1 0 (i + 1) = Some d" by blast
    from destroy_n_some_nth[OF dd] d1 have "list_all (\<lambda>c. c = None) d"
      by (auto simp: list_all_length)
    moreover have "length s = length old" using rq rp by simp
    moreover have "\<forall>k<length old. (s ! k = None) = (old ! k = None)" using rq rp by simp
    moreover have "s = old" if "args = None \<or> copy_constructible T \<or> nothrow_move_constructible T"
    proof -
      from that Some have *: "copy_constructible T \<or> nothrow_move_constructible T" by simp
      have "\<not> nothrow_move_constructible T"
        using CopyMoveNElements_nothrow_move[of T s1 i "sz - i" d1 "i + 1" "(s, d')"] q f by auto
      with * have "copy_constructible T" by simp
      from CopyMoveNElements_Inr_copy[OF p \<open>\<not> nothrow_move_constructible T\<close> this] rq *
      show ?thesis by simp
    qed
    ultimately show ?thesis by blast
  qed
qed

lemma Emplace_fill_Inr_live:
  assumes fill: "Emplace_fill T i args (block_of xs c) (length xs) \<lparr>buffer_m = replicate m None, capacity_m = n\<rparr> = Inr (s, d)"
    and c: "length xs \<le> c"
  shows "\<exists>s'. destroy_n s 0 (length xs) = Some s'"
proof -
  let ?src = "block_of xs c"
  from fill obtain x where x: "args = Some x" "i \<le> n" and "i < m"
    by (auto simp: Emplace_fill_def split: if_splits option.splits)
  let ?nb = "(replicate m None)[i := Some x]"
  from fill x \<open>i < m\<close> obtain s1 d1 where
    p: "CopyMoveNElements T ?src 0 i ?nb 0 = Inr (s1, d1)"
    by (auto simp: Emplace_fill_def
        split: if_splits sum.splits fault.splits prod.splits option.splits)
  note rp = CopyMoveNElements_Inr[OF p]
  have s1: "length s1 = c" "\<And>k. k < c \<Longrightarrow> (s1 ! k = None) = (?src ! k = None)"
    using rp c by (simp_all add: length_block_of)
  have "length s = c \<and> (\<forall>k<c. (s ! k = None) = (?src ! k = None))"
  proof (cases "i = length xs")
    case True
    with fill x \<open>i < m\<close> p have "s = s1"
      by (simp add: Emplace_fill_def)
    with s1 show ?thesis by simp
  next
    case False
    with fill x \<open>i < m\<close> p have
      q: "CopyMoveNElements T s1 i (length xs - i) d1 (i + 1) = Inr (s, d)"
      by (auto simp: Emplace_fill_def
          split: sum.splits fault.splits prod.splits option.splits)
    from CopyMoveNElements_Inr[OF q] s1 show ?thesis by simp
  qed
  then have "\<forall>k. 0 \<le> k \<and> k < 0 + length xs \<longrightarrow> slot s k \<noteq> None"
    using c by (simp add: slot_def nth_block_of)
  from destroy_n_live[OF this] show ?thesis by blast
qed

text \<open>With room for one more element, the work on the new block returns or throws.\<close>

lemma Emplace_fill_defined:
  assumes i: "i \<le> length xs" and c: "length xs \<le> c" and n: "length xs < n"
  shows "(\<exists>r. Emplace_fill T i args (block_of xs c) (length xs)
                \<lparr>buffer_m = replicate n None, capacity_m = n\<rparr> = Inr r) \<or>
         (\<exists>r. Emplace_fill T i args (block_of xs c) (length xs)
                \<lparr>buffer_m = replicate n None, capacity_m = n\<rparr> = Inl (Thrown r))"
proof (cases args)
  case None
  with i n show ?thesis by (simp add: Emplace_fill_def)
next
  case (Some x)
  let ?src = "block_of xs c"
  let ?nb = "(replicate n None)[i := Some x]"
  have raw: "\<forall>k. 0 \<le> k \<and> k < 0 + i \<longrightarrow> slot ?nb k = None"
    using i n by (simp add: slot_def)
  have "(\<exists>r. CopyMoveNElements T ?src 0 i ?nb 0 = Inr r) \<or>
        (\<exists>r. CopyMoveNElements T ?src 0 i ?nb 0 = Inl (Thrown r))"
    using i c n by (intro CopyMoveNElements_defined) (simp_all add: slot_block_of)
  then show ?thesis
  proof
    assume "\<exists>r. CopyMoveNElements T ?src 0 i ?nb 0 = Inl (Thrown r)"
    then obtain s1 d1 where p: "CopyMoveNElements T ?src 0 i ?nb 0 = Inl (Thrown (s1, d1))"
      by auto
    from CopyMoveNElements_Thrown[OF p raw] have "d1 = ?nb" by simp
    then have "slot d1 i \<noteq> None" using i n by (simp add: slot_def)
    from destroy_at_live[OF this] p Some i n show ?thesis
      by (simp add: Emplace_fill_def)
  next
    assume "\<exists>r. CopyMoveNElements T ?src 0 i ?nb 0 = Inr r"
    then obtain s1 d1 where p: "CopyMoveNElements T ?src 0 i ?nb 0 = Inr (s1, d1)" by auto
    note rp = CopyMoveNElements_Inr[OF p]
    show ?thesis
    proof (cases "i = length xs")
      case True
      with p Some n show ?thesis by (simp add: Emplace_fill_def)
    next
      case False
      have live: "\<forall>k<length xs - i. slot s1 (i + k) \<noteq> None"
      proof (intro allI impI)
        fix k assume "k < length xs - i"
        then have k: "i + k < length xs" by simp
        with c have "i + k < length ?src" by (simp add: length_block_of)
        with rp have "(s1 ! (i + k) = None) = (?src ! (i + k) = None)" "i + k < length s1" by simp_all
        with k c show "slot s1 (i + k) \<noteq> None" by (simp add: slot_def nth_block_of)
      qed
      have room: "i + 1 + (length xs - i) \<le> length d1" using rp i n by simp
      from CopyMoveNElements_defined[OF live room, of T]
      show ?thesis
      proof
        assume "\<exists>r. CopyMoveNElements T s1 i (length xs - i) d1 (i + 1) = Inr r"
        with p Some False i n show ?thesis by (auto simp: Emplace_fill_def)
      next
        assume "\<exists>r. CopyMoveNElements T s1 i (length xs - i) d1 (i + 1) = Inl (Thrown r)"
        then obtain s2 d2 where
          q: "CopyMoveNElements T s1 i (length xs - i) d1 (i + 1) = Inl (Thrown (s2, d2))" by auto
        from rp have d1: "length d1 = n"
          "\<And>k. k < n \<Longrightarrow> d1 ! k = (if k < i then slot ?src k else ?nb ! k)"
          by simp_all
        have "\<forall>k. i + 1 \<le> k \<and> k < i + 1 + (length xs - i) \<longrightarrow> slot d1 k = None"
          using d1 by (simp add: slot_def)
        from CopyMoveNElements_Thrown[OF q this] have d2: "d2 = d1" by simp
        have "\<forall>k. 0 \<le> k \<and> k < 0 + (i + 1) \<longrightarrow> slot d1 k \<noteq> None"
        proof (intro allI impI)
          fix k assume "0 \<le> k \<and> k < 0 + (i + 1)"
          then have k: "k \<le> i" by simp
          with i n have kn: "k < n" by simp
          from d1(2)[OF kn] k i c n kn show "slot d1 k \<noteq> None"
            by (cases "k = i") (auto simp: slot_def d1(1) slot_block_of[unfolded slot_def])
        qed
        from destroy_n_live[OF this] obtain d3 where "destroy_n d1 0 (i + 1) = Some d3" by blast
        with p q d2 Some False i n show ?thesis by (simp add: Emplace_fill_def del: destroy_n.simps)
      qed
    qed
  qed
qed

text \<open>Work on the new block that returns has found room for one more element than before.\<close>

lemma Emplace_fill_Inr_room:
  assumes fill: "Emplace_fill T i args old sz nd = Inr r" and i: "i \<le> sz"
  shows "sz < length (buffer_m nd)"
proof -
  from fill obtain x where x: "args = Some x" and cap: "i \<le> capacity_m nd"
    and il: "i < length (buffer_m nd)"
    by (auto simp: Emplace_fill_def split: if_splits option.splits)
  let ?nb = "(buffer_m nd)[i := Some x]"
  from fill x cap il obtain s1 d1 where
    p: "CopyMoveNElements T old 0 i ?nb 0 = Inr (s1, d1)"
    by (auto simp: Emplace_fill_def split: if_splits sum.splits fault.splits prod.splits option.splits)
  from CopyMoveNElements_Inr[OF p] have d1: "length d1 = length (buffer_m nd)" by simp
  show ?thesis
  proof (cases "i = sz")
    case True
    with il show ?thesis by simp
  next
    case False
    with fill x cap il p obtain s d where
      q: "CopyMoveNElements T s1 i (sz - i) d1 (i + 1) = Inr (s, d)"
      by (auto simp: Emplace_fill_def split: sum.splits fault.splits prod.splits option.splits)
    from False i have "sz - i - 1 < sz - i" by simp
    with CopyMoveNElements_Inr[OF q] have "i + 1 + (sz - i - 1) < length d1" by blast
    with d1 False i show ?thesis by simp
  qed
qed

text \<open>Emplace: the paths that keep the storage\<close>

lemma Emplace_at_end:
  assumes "length xs < c"
  shows "Emplace T (length xs) (Some x) (vector_of xs c) = Inr (vector_of (xs @ [x]) c, length xs)"
proof -
  have "(block_of xs c)[length xs := Some x] = block_of (xs @ [x]) c"
    using assms
    by (intro block_eqI) (auto simp: length_block_of nth_block_of nth_list_update nth_append)
  then have "with_slots ((block_of xs c)[length xs := Some x]) (vector_of xs c)\<lparr>size_m := length xs + 1\<rparr>
      = vector_of (xs @ [x]) c"
    by (simp add: with_slots_def vector_of_def)
  with assms show ?thesis by (simp add: Emplace_def length_block_of)
qed

lemma shift_right:
  assumes i: "i < length xs" and c: "length xs < c"
  shows "\<exists>b. move_backward T
            ((block_of xs c)[length xs - 1 := Some (moved_from T (last xs)), length xs := Some (last xs)])
            i (length xs - 1) (length xs) = Inr b \<and>
          slot b i \<noteq> None \<and> b[i := Some t] = block_of (take i xs @ t # drop i xs) c"
proof -
  define n where "n = length xs - 1"
  with i have n: "length xs = Suc n" "i \<le> n" by simp_all
  from i have "xs \<noteq> []" by auto
  then have l: "last xs = xs ! n" by (simp add: last_conv_nth n_def)
  let ?b1 = "(block_of xs c)[n := Some (moved_from T (xs ! n)), Suc n := Some (xs ! n)]"
  have b1: "length ?b1 = c"
    "\<And>k. k < c \<Longrightarrow> ?b1 ! k =
       (if k = Suc n then Some (xs ! n) else if k = n then Some (moved_from T (xs ! n))
        else if k < n then Some (xs ! k) else None)"
    using c n by (auto simp: length_block_of nth_block_of nth_list_update)
  have "\<exists>b'. move_backward T ?b1 i n (Suc n) = Inr b' \<and> length b' = length ?b1 \<and>
     (\<forall>k<length ?b1. b' ! k =
        (if i < k \<and> k \<le> n then ?b1 ! (k - 1)
         else if k = i \<and> i < n then map_option (moved_from T) (?b1 ! k)
         else ?b1 ! k))"
  proof (rule move_backward_ok[OF refl refl])
    show "i \<le> n" by (rule n)
    show "n < length ?b1" using b1(1) c n by simp
    show "\<forall>k. i \<le> k \<and> k \<le> n \<longrightarrow> ?b1 ! k \<noteq> None"
    proof (intro allI impI)
      fix k assume k: "i \<le> k \<and> k \<le> n"
      with c n have kc: "k < c" by simp
      show "?b1 ! k \<noteq> None" unfolding b1(2)[OF kc] using k by simp
    qed
  qed
  then obtain b where b: "move_backward T ?b1 i n (Suc n) = Inr b" "length b = c"
    "\<And>k. k < c \<Longrightarrow> b ! k =
        (if i < k \<and> k \<le> n then ?b1 ! (k - 1)
         else if k = i \<and> i < n then map_option (moved_from T) (?b1 ! k)
         else ?b1 ! k)"
    using b1(1) by auto
  have ic: "i < c" using i c by simp
  have "slot b i \<noteq> None"
    using b(2) b(3)[OF ic] b1(2)[OF ic] ic n by (auto simp: slot_def)
  moreover
  let ?ys = "take i xs @ t # drop i xs"
  have "b[i := Some t] = block_of ?ys c"
  proof (rule block_eqI)
    show "length (b[i := Some t]) = c" using b(2) by simp
    show "length ?ys \<le> c" using i c by simp
    fix k assume k: "k < c"
    consider "k < i" | "k = i" | "i < k" "k \<le> n" | "k = Suc n" | "Suc n < k" by linarith
    then show "b[i := Some t] ! k = (if k < length ?ys then Some (?ys ! k) else None)"
    proof cases
      case 1
      with b(2) b(3)[OF k] b1(2)[OF k] k n show ?thesis
        by (simp add: nth_append)
    next
      case 2
      with b(2) k n show ?thesis by (simp add: nth_append)
    next
      case 3
      then have "k - 1 < c" "k - 1 < n" "i \<le> k - 1" using k by simp_all
      with 3 b(2) b(3)[OF k] b1(2)[of "k - 1"] k n show ?thesis
        by (simp add: nth_append min_def Suc_diff_le)
    next
      case 4
      with b(2) b(3)[OF k] b1(2)[OF k] k n show ?thesis
        by (simp add: nth_append min_def Suc_diff_le)
    next
      case 5
      with b(2) b(3)[OF k] b1(2)[OF k] k n show ?thesis
        by (simp add: nth_append)
    qed
  qed
  ultimately show ?thesis using b(1) n l by auto
qed

lemma Emplace_in_middle:
  assumes i: "i < length xs" and c: "length xs < c"
  shows "Emplace T i (Some t) (vector_of xs c) =
     (if move_construct T (last xs) = None then Inl (Thrown (vector_of xs c))
      else Inr (vector_of (take i xs @ t # drop i xs) c, i))"
proof -
  from i have ne: "xs \<noteq> []" by auto
  have sl: "slot (block_of xs c) (length xs - 1) = Some (last xs)"
    using i c ne by (simp add: slot_block_of last_conv_nth)
  show ?thesis
  proof (cases "move_construct T (last xs)")
    case None
    with i c sl show ?thesis by (simp add: Emplace_def length_block_of)
  next
    case (Some y)
    then have y: "y = last xs" by (simp add: move_construct_def split: if_splits)
    from shift_right[OF i c, of T t] obtain b where
      b: "move_backward T
            ((block_of xs c)[length xs - 1 := Some (moved_from T (last xs)), length xs := Some (last xs)])
            i (length xs - 1) (length xs) = Inr b"
      and bi: "slot b i \<noteq> None"
      and fin: "b[i := Some t] = block_of (take i xs @ t # drop i xs) c"
      by blast
    from fin i have "with_slots (b[i := Some t]) (vector_of xs c)\<lparr>size_m := length xs + 1\<rparr>
       = vector_of (take i xs @ t # drop i xs) c"
      by (simp add: with_slots_def vector_of_def)
    with i c sl Some y b bi show ?thesis
      by (auto simp: Emplace_def length_block_of)
  qed
qed

text \<open>Emplace as a whole\<close>

lemma allocates_fits: "allocates T n \<Longrightarrow> 0 < n \<Longrightarrow> fits T n"
  by (auto simp: allocates_def)

lemma fits_mono: "fits T n \<Longrightarrow> m \<le> n \<Longrightarrow> fits T m"
proof -
  assume a: "fits T n" "m \<le> n"
  then have "m * size_of T \<le> n * size_of T" by simp
  with a show ?thesis unfolding fits_def by linarith
qed

lemma fits_below: "fits T n \<Longrightarrow> n < 2 ^ 64"
proof -
  assume a: "fits T n"
  then have s: "0 < size_of T" and b: "n * size_of T < 2 ^ 64" by (simp_all add: fits_def)
  from s have "n \<le> n * size_of T" by (cases "size_of T") simp_all
  then show ?thesis using b by (rule le_less_trans)
qed

text \<open>The doubled capacity of line 215, and when it is the capacity without wrap.\<close>

lemma doubled_no_wrap:
  "next_capacity c c < 2 ^ 64 \<Longrightarrow> (if c = 0 then 1 else (c * 2) mod 2 ^ 64) = next_capacity c c"
  by (cases "c = 0") (simp_all add: next_capacity_def)

lemma doubled_above:
  assumes "c < (if c = 0 then 1 else (c * 2) mod 2 ^ 64)"
  shows "(if c = 0 then 1 else (c * 2) mod 2 ^ 64) = next_capacity c c"
proof (cases "c * 2 < 2 ^ 64")
  case True
  then show ?thesis by (simp add: next_capacity_def)
next
  case False
  then have c0: "c \<noteq> 0" by auto
  have "(c * 2) mod 2 ^ 64 \<le> c"
  proof (cases "c < 2 ^ 64")
    case True
    have "(c * 2) mod 2 ^ 64 = (c * 2 - 2 ^ 64) mod 2 ^ 64"
      using False by (simp add: le_mod_geq)
    also have "\<dots> \<le> c * 2 - 2 ^ 64" by (rule mod_less_eq_dividend)
    finally show ?thesis using True by linarith
  next
    case False
    have "(c * 2) mod 2 ^ 64 < (2 :: nat) ^ 64" by simp
    with False show ?thesis by linarith
  qed
  with assms c0 show ?thesis by simp
qed

lemma Emplace_full_unfold:
  assumes "length xs = c" "RawMemory_sized T (if c = 0 then 1 else (c * 2) mod 2 ^ 64) = Some nd"
  shows "Emplace T i args (vector_of xs c) =
    (if c < i then Inl (Undefined (vector_of xs c))
     else case Emplace_fill T i args (block_of xs c) c nd of
        Inl f \<Rightarrow> Inl (map_fault (\<lambda>(old, new). with_slots old (vector_of xs c)) f)
      | Inr (old, new) \<Rightarrow>
          (case destroy_n old 0 c of
             None \<Rightarrow> Inl (Undefined (with_slots old (vector_of xs c)))
           | Some old' \<Rightarrow>
               Inr (\<lparr>data_m = \<lparr>buffer_m = new, capacity_m = capacity_m nd\<rparr>, size_m = c + 1\<rparr>, i)))"
proof -
  have sz: "size_m (vector_of xs c) = c" "Capacity (vector_of xs c) = c"
    "slots (vector_of xs c) = block_of xs c" using assms by simp_all
  obtain b k where nd: "nd = \<lparr>buffer_m = b, capacity_m = k\<rparr>" by (cases nd) auto
  show ?thesis
    using assms(2) unfolding Emplace_def sz Let_def RawMemory_Swap_def nd
    by (simp add: vector_of_data_update del: destroy_n.simps
         cong: sum.case_cong option.case_cong)
qed

lemma Emplace_full_bad_alloc:
  assumes "length xs = c" "RawMemory_sized T (if c = 0 then 1 else (c * 2) mod 2 ^ 64) = None"
    "i \<le> c"
  shows "Emplace T i args (vector_of xs c) = Inl (Thrown (vector_of xs c))"
proof -
  have sz: "size_m (vector_of xs c) = c" "Capacity (vector_of xs c) = c"
    using assms by simp_all
  show ?thesis using assms(2,3) unfolding Emplace_def sz Let_def by simp
qed

text \<open>
  A full vector that finds room for one more element in its new block has got the whole
  block: the byte count of the doubled capacity did not wrap.
\<close>

lemma growth_room:
  assumes "Allocate T (next_capacity c c) = Some b" "c < length b"
  shows "length b = next_capacity c c"
proof -
  define s where "s = size_of T"
  have s: "0 < s"
  proof (rule ccontr)
    assume "\<not> 0 < s"
    with assms(1) have "length b = 0"
      by (auto simp: Allocate_def Let_def s_def split: if_splits)
    with assms(2) show False by simp
  qed
  from Allocate_bytes[OF assms(1)] have "length b * s < 2 ^ 64" by (simp add: s_def)
  moreover from assms(2) s have "c * s < length b * s" by simp
  ultimately have cs: "c * s < 2 ^ 64" by linarith
  from Allocate_Some[OF assms(1)] s consider "length b = next_capacity c c"
    | "length b * s + 2 ^ 64 \<le> next_capacity c c * s" by (auto simp: s_def)
  then show ?thesis
  proof cases
    case 1 then show ?thesis .
  next
    case 2
    have "next_capacity c c * s \<le> c * s + c * s \<or> c = 0"
      by (simp add: next_capacity_def)
    then show ?thesis
    proof
      assume "next_capacity c c * s \<le> c * s + c * s"
      with 2 cs have "length b * s < c * s" by linarith
      then have "length b < c" by simp
      with assms(2) show ?thesis by simp
    next
      assume c0: "c = 0"
      with 2 have "length b * s + 2 ^ 64 \<le> s" by (simp add: next_capacity_def)
      moreover from assms(2) have "s \<le> length b * s" by (cases "length b") simp_all
      moreover have "(0 :: nat) < 2 ^ 64" by simp
      ultimately show ?thesis by linarith
    qed
  qed
qed

text \<open>
  Every normal return of \<open>Emplace\<close>: neither the doubled capacity nor its byte count
  wrapped, and the vector returned is the canonical one.
\<close>

lemma Emplace_Inr:
  assumes r: "Emplace T i args (vector_of xs c) = Inr r" and c: "length xs \<le> c"
  shows "\<exists>x. args = Some x \<and> i \<le> length xs \<and>
           r = (vector_of (take i xs @ x # drop i xs) (next_capacity (length xs) c), i) \<and>
           (length xs = c \<longrightarrow> allocates T (next_capacity c c) \<and> next_capacity c c < 2 ^ 64)"
proof -
  from r have i: "i \<le> length xs" by (auto simp: Emplace_def split: if_splits)
  show ?thesis
  proof (cases "length xs = c")
    case True
    define wc :: nat where "wc = (if c = 0 then 1 else (c * 2) mod 2 ^ 64)"
    from r True i obtain nd where nd: "RawMemory_sized T wc = Some nd"
      by (cases "RawMemory_sized T wc") (auto simp: Emplace_full_bad_alloc wc_def)
    note a = RawMemory_sized_Some[OF nd]
    define m where "m = length (buffer_m nd)"
    from a have ndr: "nd = \<lparr>buffer_m = replicate m None, capacity_m = wc\<rparr>" and mw: "m \<le> wc"
      by (cases nd; simp add: m_def)+
    from r True i obtain s d where
      fill: "Emplace_fill T i args (block_of xs c) (length xs) nd = Inr (s, d)"
      and res: "r = (\<lparr>data_m = \<lparr>buffer_m = d, capacity_m = wc\<rparr>, size_m = c + 1\<rparr>, i)"
      using a by (auto simp: Emplace_full_unfold[OF True nd[unfolded wc_def]]
          split: sum.splits option.splits)
    from Emplace_fill_Inr[OF fill[unfolded ndr] i c] obtain x where x: "args = Some x"
      and lm: "length xs < m"
      and d: "d = block_of (take i xs @ x # drop i xs) m" by blast
    from lm mw True have cw: "c < wc" by simp
    from doubled_above[OF this[unfolded wc_def]] have wc: "wc = next_capacity c c"
      by (simp add: wc_def)
    have wlt: "wc < 2 ^ 64" by (simp add: wc_def)
    have al: "Allocate T (next_capacity c c) = Some (buffer_m nd)" using a by (simp add: wc)
    from growth_room[OF al] lm True have m: "m = next_capacity c c" by (simp add: m_def)
    have "allocates T (next_capacity c c)"
    proof -
      from al m have full: "Allocate T (next_capacity c c) = Some (replicate (next_capacity c c) None)"
        using a by (simp add: m_def)
      have pos: "0 < next_capacity c c" by (simp add: next_capacity_def)
      from Allocate_room_fits[OF full _ pos] have f: "fits T (next_capacity c c)" by simp
      with full pos show ?thesis
        by (auto simp: allocates_def Allocate_def Let_def fits_def split: if_splits)
    qed
    moreover from res d True i x m wc
    have "r = (vector_of (take i xs @ x # drop i xs) (next_capacity (length xs) c), i)"
      by (simp add: vector_of_def)
    ultimately show ?thesis using x i wlt wc by auto
  next
    case False
    with c have lt: "length xs < c" by simp
    from r False obtain x where x: "args = Some x"
      by (cases args) (auto simp: Emplace_def split: if_splits)
    have nc: "next_capacity (length xs) c = c" using False by (simp add: next_capacity_def)
    have "r = (vector_of (take i xs @ x # drop i xs) c, i)"
    proof (cases "i = length xs")
      case True
      with r x Emplace_at_end[OF lt, of T x] show ?thesis by simp
    next
      case False
      with i have "i < length xs" by simp
      from Emplace_in_middle[OF this lt, of T x] r x i show ?thesis
        by (auto split: if_splits)
    qed
    with x i lt nc show ?thesis by auto
  qed
qed

lemma Emplace_ok:
  assumes nt: "nothrow T" and i: "i \<le> length xs" and c: "length xs \<le> c"
    and al: "length xs = c \<longrightarrow> allocates T (next_capacity c c)"
  shows "Emplace T i (Some x) (vector_of xs c) =
           Inr (vector_of (take i xs @ x # drop i xs) (next_capacity (length xs) c), i)"
proof -
  have "\<exists>r. Emplace T i (Some x) (vector_of xs c) = Inr r"
  proof (cases "length xs = c")
    case True
    then have lt: "length xs < next_capacity c c" by (simp add: next_capacity_def)
    from al True have "fits T (next_capacity c c)"
      by (intro allocates_fits) (simp_all add: next_capacity_def)
    then have wc: "(if c = 0 then 1 else (c * 2) mod 2 ^ 64) = next_capacity c c"
      by (intro doubled_no_wrap fits_below)
    from al True have nd: "RawMemory_sized T (if c = 0 then 1 else (c * 2) mod 2 ^ 64) =
        Some \<lparr>buffer_m = replicate (next_capacity c c) None, capacity_m = next_capacity c c\<rparr>"
      unfolding wc by (simp add: RawMemory_sized_allocates)
    from Emplace_fill_ok[OF nt i c lt, of x] obtain s d where
      fill: "Emplace_fill T i (Some x) (block_of xs c) (length xs)
               \<lparr>buffer_m = replicate (next_capacity c c) None, capacity_m = next_capacity c c\<rparr> = Inr (s, d)"
      by auto
    from Emplace_fill_Inr_live[OF fill c] fill True i show ?thesis
      by (auto simp: Emplace_full_unfold[OF True nd])
  next
    case False
    with c have lt: "length xs < c" by simp
    show ?thesis
    proof (cases "i = length xs")
      case True
      with Emplace_at_end[OF lt, of T x] show ?thesis by simp
    next
      case False
      with i have "i < length xs" by simp
      from Emplace_in_middle[OF this lt, of T x] nt show ?thesis
        by (simp add: move_construct_nothrow)
    qed
  qed
  then obtain r where r: "Emplace T i (Some x) (vector_of xs c) = Inr r" by blast
  from Emplace_Inr[OF r c] r show ?thesis by simp
qed

lemma Emplace_Thrown:
  assumes t: "Emplace T i args (vector_of xs c) = Inl (Thrown v')" and c: "length xs \<le> c"
  shows "vector_inv v' \<and> size_m v' = length xs \<and> Capacity v' = c \<and>
         (args = None \<or> copy_constructible T \<or> nothrow_move_constructible T \<or> length xs < c
            \<longrightarrow> v' = vector_of xs c)"
proof -
  let ?v = "vector_of xs c"
  have inv: "vector_inv ?v" using c by (simp add: vector_inv_vector_of)
  from t have i: "i \<le> length xs" by (auto simp: Emplace_def split: if_splits)
  show ?thesis
  proof (cases "length xs = c")
    case True
    show ?thesis
    proof (cases "RawMemory_sized T (if c = 0 then 1 else (c * 2) mod 2 ^ 64)")
      case None
      from Emplace_full_bad_alloc[OF True None, of i args] t i True have "v' = ?v" by simp
      with inv show ?thesis by simp
    next
      case (Some nd)
      note a = RawMemory_sized_Some[OF Some]
      define m where "m = length (buffer_m nd)"
      from a obtain k where ndr: "nd = \<lparr>buffer_m = replicate m None, capacity_m = k\<rparr>"
        by (cases nd) (simp add: m_def)
      from t i True obtain f where
        fill: "Emplace_fill T i args (block_of xs c) c nd = Inl f"
        and m: "map_fault (\<lambda>(old, new). with_slots old ?v) f = Thrown v'"
        by (auto simp: Emplace_full_unfold[OF True Some] split: sum.splits prod.splits option.splits)
      from m obtain s d where f: "f = Thrown (s, d)" and v': "v' = with_slots s ?v"
        by (cases f) auto
      note r = Emplace_fill_Thrown[OF fill[unfolded f ndr]]
      have "vector_inv v'" unfolding v'
        using r c by (intro vector_inv_with_slots[OF inv]) simp_all
      moreover have "v' = ?v" if "args = None \<or> copy_constructible T \<or> nothrow_move_constructible T"
      proof -
        from r that have "s = slots ?v" by simp
        then show ?thesis unfolding v' by (simp only: with_slots_same)
      qed
      ultimately show ?thesis using True by (auto simp: v')
    qed
  next
    case False
    with c have lt: "length xs < c" by simp
    have "v' = ?v"
    proof (cases args)
      case None
      with t False i show ?thesis by (auto simp: Emplace_def split: if_splits)
    next
      case (Some x)
      show ?thesis
      proof (cases "i = length xs")
        case True
        with t Some Emplace_at_end[OF lt, of T x] show ?thesis by simp
      next
        case False
        with i have "i < length xs" by simp
        from Emplace_in_middle[OF this lt, of T x] t Some show ?thesis
          by (auto split: if_splits)
      qed
    qed
    with inv show ?thesis by simp
  qed
qed

text \<open>Within the vector, and when the byte count does not wrap, \<open>Emplace\<close> returns or throws.\<close>

lemma Emplace_defined:
  assumes i: "i \<le> length xs" and c: "length xs \<le> c"
    and f: "length xs < c \<or> fits T (next_capacity c c)"
  shows "(\<exists>r. Emplace T i args (vector_of xs c) = Inr r) \<or>
         (\<exists>v'. Emplace T i args (vector_of xs c) = Inl (Thrown v'))"
proof (cases "length xs = c")
  case True
  then have lt: "length xs < next_capacity c c" by (simp add: next_capacity_def)
  from f True have ft: "fits T (next_capacity c c)" by simp
  then have wc: "(if c = 0 then 1 else (c * 2) mod 2 ^ 64) = next_capacity c c"
    by (intro doubled_no_wrap fits_below)
  show ?thesis
  proof (cases "RawMemory_sized T (next_capacity c c)")
    case None
    from Emplace_full_bad_alloc[OF True None[folded wc], of i args] i True show ?thesis by simp
  next
    case Some': (Some nd)
    note Some = Some'[folded wc]
    from RawMemory_sized_fits[OF ft Some']
    have nd: "nd = \<lparr>buffer_m = replicate (next_capacity c c) None, capacity_m = next_capacity c c\<rparr>"
      by simp
    from Emplace_fill_defined[OF i c lt, of T args] show ?thesis
    proof
      assume "\<exists>r. Emplace_fill T i args (block_of xs c) (length xs)
                \<lparr>buffer_m = replicate (next_capacity c c) None, capacity_m = next_capacity c c\<rparr> = Inr r"
      then obtain s d where fill: "Emplace_fill T i args (block_of xs c) (length xs)
                \<lparr>buffer_m = replicate (next_capacity c c) None, capacity_m = next_capacity c c\<rparr> = Inr (s, d)"
        by auto
      from Emplace_fill_Inr_live[OF fill c] fill True i show ?thesis
        by (auto simp: Emplace_full_unfold[OF True Some] nd)
    next
      assume "\<exists>r. Emplace_fill T i args (block_of xs c) (length xs)
                \<lparr>buffer_m = replicate (next_capacity c c) None, capacity_m = next_capacity c c\<rparr> = Inl (Thrown r)"
      with True i show ?thesis
        by (auto simp: Emplace_full_unfold[OF True Some] nd)
    qed
  qed
next
  case False
  with c have lt: "length xs < c" by simp
  show ?thesis
  proof (cases args)
    case None
    with False i show ?thesis by (auto simp: Emplace_def)
  next
    case (Some x)
    show ?thesis
    proof (cases "i = length xs")
      case True
      with Some Emplace_at_end[OF lt, of T x] show ?thesis by simp
    next
      case False
      with i have "i < length xs" by simp
      from Emplace_in_middle[OF this lt, of T x] Some show ?thesis by simp
    qed
  qed
qed

lemma vector_inv_cases:
  assumes "vector_inv v"
  obtains xs c where "v = vector_of xs c" "length xs \<le> c" "xs = elements v" "c = Capacity v"
    "length xs = size_m v"
  using vector_inv_repr[OF assms] by metis

lemma capacity_after_ge: "n \<le> capacity_after n"
  by (induction n) (auto simp: next_capacity_def)

lemma capacity_after_power:
  "0 < n \<Longrightarrow> \<exists>k. capacity_after n = 2 ^ k \<and> n \<le> 2 ^ k \<and> 2 ^ k < 2 * n"
proof (induction n)
  case 0 then show ?case by simp
next
  case (Suc n)
  show ?case
  proof (cases "n = 0")
    case True
    then have "capacity_after (Suc n) = 2 ^ 0" by (simp add: next_capacity_def)
    with True show ?thesis by (intro exI[of _ 0]) simp
  next
    case False
    with Suc.IH obtain k where k: "capacity_after n = 2 ^ k" "n \<le> 2 ^ k" "2 ^ k < 2 * n" by auto
    show ?thesis
    proof (cases "n = capacity_after n")
      case True
      with False k have "capacity_after (Suc n) = 2 ^ Suc k" by (simp add: next_capacity_def)
      moreover from True k have "Suc n \<le> 2 ^ Suc k" "(2::nat) ^ Suc k < 2 * Suc n" by simp_all
      ultimately show ?thesis by blast
    next
      case False
      with k have "capacity_after (Suc n) = 2 ^ k" "Suc n \<le> 2 ^ k" "(2::nat) ^ k < 2 * Suc n"
        by (simp_all add: next_capacity_def)
      then show ?thesis by blast
    qed
  qed
qed

lemma PushBack_ok:
  assumes "nothrow T" "length xs \<le> c" "length xs = c \<longrightarrow> allocates T (next_capacity c c)"
  shows "PushBack T x (vector_of xs c) = Inr (vector_of (xs @ [x]) (next_capacity (length xs) c))"
  using Emplace_ok[OF assms(1) le_refl assms(2,3), of x] assms(1)
  by (simp add: PushBack_def EmplaceBack_def copy_construct_nothrow)

lemma PushBack_all_ok:
  assumes "nothrow T"
  shows "(\<forall>k. 2 ^ k < 2 * (length ys + length xs) \<longrightarrow> allocates T (2 ^ k)) \<Longrightarrow>
         PushBack_all T xs (vector_of ys (capacity_after (length ys))) =
           Inr (vector_of (ys @ xs) (capacity_after (length ys + length xs)))"
proof (induction xs arbitrary: ys)
  case Nil
  show ?case by simp
next
  case (Cons x xs)
  have al: "allocates T (capacity_after (Suc (length ys)))"
  proof -
    from capacity_after_power[of "Suc (length ys)"] obtain k where
      k: "capacity_after (Suc (length ys)) = 2 ^ k" "2 ^ k < 2 * Suc (length ys)" by auto
    then have "(2 :: nat) ^ k < 2 * (length ys + length (x # xs))" by simp
    with Cons.prems k(1) show ?thesis by simp
  qed
  define c where "c = capacity_after (length ys)"
  have c: "length ys \<le> c" unfolding c_def by (rule capacity_after_ge)
  from al have "allocates T (next_capacity (length ys) c)" by (simp add: c_def)
  then have "length ys = c \<longrightarrow> allocates T (next_capacity c c)" by auto
  from PushBack_ok[OF assms c this, of x]
  have "PushBack T x (vector_of ys (capacity_after (length ys))) =
          Inr (vector_of (ys @ [x]) (capacity_after (length (ys @ [x]))))"
    by (simp add: c_def)
  moreover have "\<forall>k. 2 ^ k < 2 * (length (ys @ [x]) + length xs) \<longrightarrow> allocates T (2 ^ k)"
    using Cons.prems by simp
  from Cons.IH[OF this] have "PushBack_all T xs (vector_of (ys @ [x]) (capacity_after (length (ys @ [x])))) =
      Inr (vector_of ((ys @ [x]) @ xs) (capacity_after (length (ys @ [x]) + length xs)))" .
  ultimately show ?case by simp
qed

lemma Vector_default_eq: "Vector_default = vector_of [] 0"
  by (simp add: Vector_default_def RawMemory_default_def vector_of_def block_of_def)

text \<open>Construction and assignment\<close>

lemma Vector_sized_Inr:
  assumes "Vector_sized T n = Inr v"
  shows "n = 0 \<and> v = vector_of [] 0 \<or> (\<exists>d. value_init T = Some d \<and> v = vector_of (replicate n d) n)"
proof -
  from assms obtain nd where nd: "RawMemory_sized T n = Some nd"
    by (cases "RawMemory_sized T n") (auto simp: Vector_sized_def)
  note a = RawMemory_sized_Some[OF nd]
  define m where "m = length (buffer_m nd)"
  from a have ndr: "nd = \<lparr>buffer_m = block_of [] m, capacity_m = n\<rparr>" and mn: "m \<le> n"
    by (cases nd; simp add: m_def block_of_def)+
  from assms nd obtain b where
    b: "uninitialized_value_construct_n T (block_of [] m) (length ([] :: 'a list)) n = Inr b"
    and v: "v = \<lparr>data_m = \<lparr>buffer_m = b, capacity_m = n\<rparr>, size_m = n\<rparr>"
    unfolding ndr by (auto simp: Vector_sized_def split: sum.splits)
  from value_construct_block_of[OF b] mn have "m = n" by auto
  with value_construct_block_of[OF b] v show ?thesis
    by (auto simp: vector_of_def block_of_def)
qed

lemma Vector_sized_ok:
  assumes "value_init T = Some d" "allocates T n"
  shows "Vector_sized T n = Inr (vector_of (replicate n d) n)"
proof -
  have "0 + n \<le> length (replicate n None :: 'a block)" by simp
  from uninitialized_value_construct_n_ok[OF assms(1) this] obtain v where
    v: "Vector_sized T n = Inr v"
    by (auto simp: Vector_sized_def RawMemory_sized_allocates[OF assms(2)])
  from Vector_sized_Inr[OF v] assms v show ?thesis
    by (auto simp: vector_of_def block_of_def)
qed

lemma Vector_copy_Inr:
  assumes "Vector_copy T (vector_of ys c) = Inr v" "length ys \<le> c"
  shows "v = vector_of ys (length ys)"
proof -
  from assms obtain nd where nd: "RawMemory_sized T (length ys) = Some nd"
    by (cases "RawMemory_sized T (length ys)") (auto simp: Vector_copy_def)
  note a = RawMemory_sized_Some[OF nd]
  define m where "m = length (buffer_m nd)"
  from a have ndr: "nd = \<lparr>buffer_m = replicate m None, capacity_m = length ys\<rparr>"
    and mn: "m \<le> length ys"
    by (cases nd; simp add: m_def)+
  from assms nd obtain b where
    b: "uninitialized_copy_n T (block_of ys c) 0 (length ys) (replicate m None) 0 = Inr b"
    and v: "v = \<lparr>data_m = \<lparr>buffer_m = b, capacity_m = length ys\<rparr>, size_m = length ys\<rparr>"
    unfolding ndr by (auto simp: Vector_copy_def split: sum.splits)
  note r = uninitialized_copy_n_Inr[OF b]
  from r have "\<forall>k<length ys. k < m" by simp
  then have "length ys \<le> m" by (cases ys rule: rev_cases) (auto simp: not_less[symmetric])
  with mn have m: "m = length ys" by simp
  have "b = block_of ys (length ys)"
    using r assms(2) m
    by (intro block_eqI) (auto simp: slot_block_of)
  with v show ?thesis by (simp add: vector_of_def)
qed

lemma Vector_copy_ok:
  assumes "\<forall>y\<in>set ys. \<not> copy_throws T y" "length ys \<le> c" "allocates T (length ys)"
  shows "Vector_copy T (vector_of ys c) = Inr (vector_of ys (length ys))"
proof -
  have "\<forall>k<length ys. \<exists>x. slot (block_of ys c) (0 + k) = Some x \<and> \<not> copy_throws T x"
    using assms by (simp add: slot_block_of)
  moreover have "0 + length ys \<le> length (replicate (length ys) None :: 'a block)"
    by simp
  ultimately obtain b where
    "uninitialized_copy_n T (block_of ys c) 0 (length ys) (replicate (length ys) None) 0 = Inr b"
    using uninitialized_copy_n_ok by blast
  then obtain v where v: "Vector_copy T (vector_of ys c) = Inr v"
    by (simp add: Vector_copy_def RawMemory_sized_allocates[OF assms(3)])
  from Vector_copy_Inr[OF v assms(2)] v show ?thesis by simp
qed

text \<open>When the byte count does not wrap, the copy constructor returns or throws.\<close>

lemma Vector_copy_defined:
  assumes "length ys \<le> c" "fits T (length ys)"
  shows "Vector_copy T (vector_of ys c) = Inr (vector_of ys (length ys)) \<or>
         Vector_copy T (vector_of ys c) = Inl (Thrown ())"
proof (cases "RawMemory_sized T (length ys)")
  case None
  then show ?thesis by (simp add: Vector_copy_def)
next
  case (Some nd)
  from RawMemory_sized_fits[OF assms(2) Some]
  have nd: "nd = \<lparr>buffer_m = replicate (length ys) None, capacity_m = length ys\<rparr>" .
  have "(\<exists>d. uninitialized_copy_n T (block_of ys c) 0 (length ys) (replicate (length ys) None) 0 = Inr d) \<or>
        (\<exists>d. uninitialized_copy_n T (block_of ys c) 0 (length ys) (replicate (length ys) None) 0 = Inl (Thrown d))"
    using assms(1) by (intro uninitialized_copy_n_defined) (simp_all add: slot_block_of)
  then show ?thesis
  proof
    assume "\<exists>d. uninitialized_copy_n T (block_of ys c) 0 (length ys) (replicate (length ys) None) 0 = Inr d"
    then obtain v where v: "Vector_copy T (vector_of ys c) = Inr v"
      by (auto simp: Vector_copy_def Some nd)
    from Vector_copy_Inr[OF v assms(1)] v show ?thesis by simp
  next
    assume "\<exists>d. uninitialized_copy_n T (block_of ys c) 0 (length ys) (replicate (length ys) None) 0 = Inl (Thrown d)"
    then show ?thesis by (auto simp: Vector_copy_def Some nd)
  qed
qed

text \<open>A size whose byte count wraps to 0: the sized constructor writes outside the block.\<close>

lemma Vector_sized_outside:
  assumes "0 < n" "RawMemory_sized T n = Some \<lparr>buffer_m = [], capacity_m = n\<rparr>"
  shows "Vector_sized T n = Inl (Undefined ())"
  using uninitialized_value_construct_n_outside[OF assms(1), of "[]" 0 T] assms(2)
  by (simp add: Vector_sized_def)

lemma Swap_eq: "Swap a b = (b, a)"
  by (simp add: Swap_def RawMemory_Swap_def)

lemma Vector_move_eq: "Vector_move a = (a, Vector_default)"
  by (simp add: Vector_move_def Swap_eq)

lemma move_assign_eq: "move_assign a b = (b, a)"
  by (simp add: move_assign_def Swap_eq)

lemma Vector_destroy_ok:
  assumes "length xs \<le> c"
  shows "Vector_destroy (vector_of xs c) = Some (replicate c None)"
proof -
  have "destroy_n (block_of xs c) (length ([] :: 'a list)) (length xs - length ([] :: 'a list))
          = Some (block_of [] c)"
    using assms by (intro destroy_tail) (simp_all add: length_block_of nth_block_of)
  then show ?thesis by (simp add: Vector_destroy_def block_of_def)
qed

lemma copy_assign_realloc:
  assumes "c < length ys" "length ys \<le> c'" "length xs \<le> c"
  shows "copy_assign T (vector_of xs c) (vector_of ys c') =
     (case Vector_copy T (vector_of ys c') of
        Inl f \<Rightarrow> Inl (map_fault (\<lambda>_. vector_of xs c) f)
      | Inr rhs_copy \<Rightarrow> Inr (vector_of ys (length ys)))"
proof (cases "Vector_copy T (vector_of ys c')")
  case (Inl f)
  with assms show ?thesis by (simp add: copy_assign_def)
next
  case (Inr v)
  with Vector_copy_Inr[OF Inr assms(2)] assms show ?thesis
    by (simp add: copy_assign_def Swap_eq Vector_destroy_ok)
qed

lemma copy_assign_shrink:
  assumes "length ys \<le> length xs" "length xs \<le> c" "length ys \<le> c'"
  shows "copy_assign T (vector_of xs c) (vector_of ys c') = Inr (vector_of ys c)"
proof -
  let ?src = "block_of ys c'" and ?dst = "block_of xs c"
  have pre: "\<forall>k<length ys. slot ?src (0 + k) \<noteq> None \<and> slot ?dst (0 + k) \<noteq> None"
    using assms by (simp add: slot_block_of)
  from copy_n_ok[OF pre] obtain b where b: "copy_n ?src 0 (length ys) ?dst 0 = Inr b"
    "length b = c"
    "\<And>k. k < c \<Longrightarrow> b ! k = (if k < length ys then slot ?src k else ?dst ! k)"
    using assms(2) by (auto simp: length_block_of)
  have fin: "destroy_n b (length ys) (length xs - length ys) = Some (block_of ys c)"
    using b(2,3) assms
    by (intro destroy_tail) (auto simp: slot_block_of nth_block_of)
  have rec: "with_slots (block_of ys c) (vector_of xs c)\<lparr>size_m := length ys\<rparr> = vector_of ys c"
    by (simp add: with_slots_def vector_of_def)
  show ?thesis
  proof (cases "length ys < length xs")
    case True
    with assms b(1) fin rec show ?thesis
      by (simp add: copy_assign_def std_copy_def del: destroy_n.simps)
  next
    case False
    with assms have e: "length ys = length xs" by simp
    with fin have "b = block_of ys c" by simp
    with e assms b(1) rec show ?thesis
      by (simp add: copy_assign_def)
  qed
qed

lemma copy_assign_in_place_longer:
  assumes "length xs < length ys" "length ys \<le> c" "length ys \<le> c'"
  shows "copy_assign T (vector_of xs c) (vector_of ys c') =
           Inl (Undefined (vector_of (take (length xs) ys) c))"
proof -
  let ?src = "block_of ys c'" and ?dst = "block_of xs c"
  have pre: "\<forall>k<length xs. slot ?src (0 + k) \<noteq> None \<and> slot ?dst (0 + k) \<noteq> None"
    using assms by (simp add: slot_block_of)
  from copy_n_ok[OF pre] obtain b where b: "copy_n ?src 0 (length xs) ?dst 0 = Inr b"
    "length b = c"
    "\<And>k. k < c \<Longrightarrow> b ! k = (if k < length xs then slot ?src k else ?dst ! k)"
    using assms by (auto simp: length_block_of)
  have bb: "b = block_of (take (length xs) ys) c"
    using b(2,3) assms
    by (intro block_eqI) (auto simp: slot_block_of nth_block_of min_absorb2)
  from assms have "length xs < c" by simp
  from b(3)[OF this] assms have "slot b (length xs) = None"
    by (simp add: slot_def b(2) nth_block_of)
  moreover obtain m where "length ys - length xs = Suc m"
    using assms(1) by (cases "length ys - length xs") auto
  ultimately have "uninitialized_copy_n T b (length xs) (length ys - length xs) b (length xs) =
      Inl (Undefined b)"
    by simp
  moreover have "with_slots b (vector_of xs c) = vector_of (take (length xs) ys) c"
    using assms(1) by (simp add: bb with_slots_def vector_of_def min_absorb2)
  ultimately show ?thesis using assms b(1) by (simp add: copy_assign_def)
qed

section \<open>What an operation leaves behind\<close>

lemma next_capacity_gt: "n \<le> c \<Longrightarrow> n < next_capacity n c"
  by (auto simp: next_capacity_def)

lemma next_capacity_ge: "c \<le> next_capacity n c"
  by (auto simp: next_capacity_def)

lemma vector_inv_Vector_default: "vector_inv Vector_default"
  by (simp add: Vector_default_eq vector_inv_vector_of)

subsection \<open>The capacity, in every outcome\<close>

text \<open>
  The recorded capacity changes only where a new \<open>RawMemory\<close> is swapped in, and every
  fault carries the vector with the capacity it had when the operation began or after
  such a swap.  No invariant is needed.
\<close>

lemma state_of_map_fault: "state_of (map_fault g f) = g (state_of f)"
  by (cases f) simp_all

lemma left_by_simps:
  "left_by (Inr v) = v" "left_by (Inl f) = state_of f"
  by (simp_all add: left_by_def)

lemma Reserve_capacity: "Capacity v \<le> Capacity (left_by (Reserve T n v))"
proof (cases "n \<le> capacity_m (data_m v)")
  case True
  then show ?thesis by (simp add: Reserve_def left_by_simps)
next
  case False
  show ?thesis
  proof (cases "RawMemory_sized T n")
    case None
    with False show ?thesis by (simp add: Reserve_def left_by_simps)
  next
    case (Some nd)
    from RawMemory_sized_Some[OF Some] have cap: "capacity_m nd = n" by simp
    show ?thesis
    proof (cases "CopyMoveNElements T (slots v) 0 (size_m v) (buffer_m nd) 0")
      case (Inl f)
      with False Some show ?thesis
        by (simp add: Reserve_def left_by_simps state_of_map_fault split_beta)
    next
      case (Inr r)
      with False Some cap show ?thesis
        by (cases r; cases "destroy_n (fst r) 0 (size_m v)")
           (simp_all add: Reserve_def left_by_simps RawMemory_Swap_def Capacity_def
              del: destroy_n.simps)
    qed
  qed
qed

lemma Resize_capacity: "Capacity v \<le> Capacity (left_by (Resize T n v))"
proof -
  consider "size_m v = n" | "n < size_m v" | "size_m v < n" by linarith
  then show ?thesis
  proof cases
    case 1
    then show ?thesis by (simp add: Resize_def left_by_simps)
  next
    case 2
    then show ?thesis
      by (cases "destroy_n (slots v) n (size_m v - n)")
         (simp_all add: Resize_def left_by_simps Capacity_def with_slots_def del: destroy_n.simps)
  next
    case 3
    note r = Reserve_capacity[of v T n]
    show ?thesis
    proof (cases "Reserve T n v")
      case (Inl f)
      with 3 r show ?thesis by (simp add: Resize_def left_by_simps)
    next
      case (Inr v1)
      with r have c1: "Capacity v \<le> Capacity v1" by (simp add: left_by_simps)
      show ?thesis
      proof (cases "uninitialized_value_construct_n T (slots v1) (size_m v1) (n - size_m v1)")
        case (Inl f)
        with 3 Inr c1 show ?thesis
          by (simp add: Resize_def left_by_simps state_of_map_fault)
      next
        case Inr2: (Inr b)
        with 3 Inr c1 show ?thesis
          by (simp add: Resize_def left_by_simps Capacity_def with_slots_def)
      qed
    qed
  qed
qed

lemma Emplace_capacity:
  "Capacity v \<le> Capacity (left_by (map_sum id fst (Emplace T i args v)))"
proof -
  consider "size_m v < i" | "i \<le> size_m v" "Capacity v = size_m v"
    | "i = size_m v" "size_m v \<noteq> Capacity v" | "i < size_m v" "size_m v \<noteq> Capacity v"
    by linarith
  then show ?thesis
  proof cases
    case 1
    then show ?thesis by (simp add: Emplace_def left_by_simps)
  next
    case 2
    define nc :: nat where "nc = (if size_m v = 0 then 1 else (size_m v * 2) mod 2 ^ 64)"
    show ?thesis
    proof (cases "RawMemory_sized T nc")
      case None
      with 2 show ?thesis by (simp add: Emplace_def left_by_simps nc_def[symmetric])
    next
      case (Some nd)
      from RawMemory_sized_Some[OF Some] have cap: "capacity_m nd = nc"
        and len: "length (buffer_m nd) \<le> nc" by simp_all
      show ?thesis
      proof (cases "Emplace_fill T i args (slots v) (size_m v) nd")
        case (Inl f)
        with 2 Some show ?thesis
          by (simp add: Emplace_def left_by_simps nc_def[symmetric] state_of_map_fault split_beta)
      next
        case (Inr r)
        from Emplace_fill_Inr_room[OF Inr 2(1)] len 2(2) have nc: "Capacity v \<le> nc" by simp
        with Inr 2 Some cap show ?thesis
          by (cases r; cases "destroy_n (fst r) 0 (size_m v)")
             (simp_all add: Emplace_def left_by_simps nc_def[symmetric] RawMemory_Swap_def
                Capacity_def del: destroy_n.simps)
      qed
    qed
  next
    case 3
    then show ?thesis
      by (cases args) (simp_all add: Emplace_def left_by_simps Capacity_def with_slots_def)
  next
    case 4
    then have g: "\<not> size_m v < i" "size_m v \<noteq> Capacity v" "i \<noteq> size_m v" by simp_all
    show ?thesis
    proof (cases args)
      case None
      with g show ?thesis by (simp add: Emplace_def left_by_simps)
    next
      case (Some t)
      show ?thesis
      proof (cases "slot (slots v) (size_m v - 1)")
        case None
        with g Some show ?thesis by (simp add: Emplace_def left_by_simps)
      next
        case l: (Some l)
        show ?thesis
        proof (cases "length (slots v) \<le> size_m v \<or> move_construct T l = None")
          case True
          with g Some l show ?thesis by (auto simp: Emplace_def left_by_simps)
        next
          case False
          then obtain y where y: "move_construct T l = Some y" and len: "\<not> length (slots v) \<le> size_m v"
            by auto
          show ?thesis
          proof (cases "move_backward T ((slots v)[size_m v - 1 := Some (moved_from T l),
                            size_m v := Some y]) i (size_m v - 1) (size_m v)")
            case (Inl f)
            with g Some l y len show ?thesis
              by (simp add: Emplace_def left_by_simps state_of_map_fault)
          next
            case (Inr b)
            with g Some l y len show ?thesis
              by (cases "slot b i")
                 (simp_all add: Emplace_def left_by_simps Capacity_def with_slots_def)
          qed
        qed
      qed
    qed
  qed
qed

lemma Erase_capacity:
  "Capacity v \<le> Capacity (left_by (map_sum id fst (Erase T i v)))"
proof (cases "i = size_m v \<or> size_m v < i")
  case True
  then show ?thesis by (auto simp: Erase_def left_by_simps)
next
  case False
  show ?thesis
  proof (cases "std_move T (slots v) (i + 1) (size_m v) i")
    case (Inl f)
    with False show ?thesis by (simp add: Erase_def left_by_simps state_of_map_fault)
  next
    case (Inr r)
    with False show ?thesis
      by (cases r; cases "destroy_at (fst r) (snd r)")
         (simp_all add: Erase_def left_by_simps Capacity_def with_slots_def)
  qed
qed

lemma PopBack_capacity: "Capacity v \<le> Capacity (left_by (PopBack v))"
  by (cases "destroy_at (slots v) (size_m v - 1)")
     (simp_all add: PopBack_def left_by_simps Capacity_def with_slots_def)

lemma Vector_copy_capacity: "Vector_copy T rhs = Inr v \<Longrightarrow> Capacity v = size_m rhs"
  by (auto simp: Vector_copy_def Capacity_def split: option.splits sum.splits
      dest: RawMemory_sized_Some)

lemma copy_assign_capacity: "Capacity a \<le> Capacity (left_by (copy_assign T a b))"
proof -
  consider "capacity_m (data_m a) < size_m b"
    | "size_m b \<le> capacity_m (data_m a)" "size_m b < size_m a"
    | "size_m b \<le> capacity_m (data_m a)" "size_m a \<le> size_m b"
    by linarith
  then show ?thesis
  proof cases
    case 1
    show ?thesis
    proof (cases "Vector_copy T b")
      case (Inl f)
      with 1 show ?thesis by (simp add: copy_assign_def left_by_simps state_of_map_fault)
    next
      case (Inr c)
      from Vector_copy_capacity[OF Inr] 1 have "Capacity a \<le> Capacity c"
        by (simp add: Capacity_def)
      with 1 Inr show ?thesis
        by (cases "Vector_destroy a") (simp_all add: copy_assign_def left_by_simps Swap_eq)
    qed
  next
    case 2
    show ?thesis
    proof (cases "std_copy (slots b) 0 (size_m b) (slots a) 0")
      case (Inl f)
      with 2 show ?thesis by (simp add: copy_assign_def left_by_simps state_of_map_fault)
    next
      case (Inr c)
      with 2 show ?thesis
        by (cases "destroy_n c (size_m b) (size_m a - size_m b)")
           (simp_all add: copy_assign_def left_by_simps Capacity_def with_slots_def
              del: destroy_n.simps)
    qed
  next
    case 3
    show ?thesis
    proof (cases "copy_n (slots b) 0 (size_m a) (slots a) 0")
      case (Inl f)
      with 3 show ?thesis by (simp add: copy_assign_def left_by_simps state_of_map_fault)
    next
      case (Inr c)
      with 3 show ?thesis
        by (cases "uninitialized_copy_n T c (size_m a) (size_m b - size_m a) c (size_m a)")
           (simp_all add: copy_assign_def left_by_simps state_of_map_fault Capacity_def
              with_slots_def)
    qed
  qed
qed

subsection \<open>The invariant, after a return and after an exception\<close>

lemma returns_or_throwsI:
  assumes "(\<exists>v. r = Inr v) \<or> (\<exists>v. r = Inl (Thrown v))"
    and "\<And>v. r = Inr v \<Longrightarrow> P v" "\<And>v. r = Inl (Thrown v) \<Longrightarrow> P v"
  shows "returns_or_throws P r"
  using assms by (auto simp: returns_or_throws_def)

lemma returns_or_throws_fst:
  assumes "(\<exists>v. r = Inr v) \<or> (\<exists>v. r = Inl (Thrown v))"
    and "\<And>v j. r = Inr (v, j) \<Longrightarrow> P v" "\<And>v. r = Inl (Thrown v) \<Longrightarrow> P v"
  shows "returns_or_throws P (map_sum id fst r)"
  using assms by (auto simp: returns_or_throws_def)

lemma Reserve_outcome:
  assumes "length xs \<le> c" "n \<le> c \<or> fits T n"
  shows "returns_or_throws vector_inv (Reserve T n (vector_of xs c))"
proof (cases "n \<le> c")
  case True
  with assms show ?thesis
    by (simp add: Reserve_small returns_or_throws_def vector_inv_vector_of)
next
  case False
  then have n: "c < n" by simp
  with assms have f: "fits T n" by simp
  show ?thesis
  proof (rule returns_or_throwsI)
    show "(\<exists>v. Reserve T n (vector_of xs c) = Inr v) \<or>
          (\<exists>v. Reserve T n (vector_of xs c) = Inl (Thrown v))"
      by (rule Reserve_defined[OF assms(1) n f])
  next
    fix v' assume "Reserve T n (vector_of xs c) = Inr v'"
    from Reserve_Inr_fits[OF assms(1) n this f] assms n
    show "vector_inv v'" by (simp add: vector_inv_vector_of)
  next
    fix v' assume "Reserve T n (vector_of xs c) = Inl (Thrown v')"
    from Reserve_Thrown[OF assms(1) this] show "vector_inv v'" by simp
  qed
qed

lemma Resize_outcome:
  assumes "length xs \<le> c" "n \<le> c \<or> fits T n"
  shows "returns_or_throws vector_inv (Resize T n (vector_of xs c))"
proof (rule returns_or_throwsI)
  show "(\<exists>v. Resize T n (vector_of xs c) = Inr v) \<or>
        (\<exists>v. Resize T n (vector_of xs c) = Inl (Thrown v))"
    by (rule Resize_defined[OF assms])
next
  fix v' assume r: "Resize T n (vector_of xs c) = Inr v'"
  show "vector_inv v'"
  proof (cases "n \<le> length xs")
    case True
    from Resize_shrink[OF True assms(1), of T] r assms(1) show ?thesis
      by (auto simp: vector_inv_vector_of)
  next
    case False
    then have "length xs < n" by simp
    from Resize_grow_Inr[OF this assms(1) r] this show ?thesis
      by (auto simp: vector_inv_vector_of)
  qed
next
  fix v' assume "Resize T n (vector_of xs c) = Inl (Thrown v')"
  from Resize_Thrown[OF assms(1) this assms(2)] show "vector_inv v'" by simp
qed

lemma Emplace_outcome:
  assumes "length xs \<le> c" "i \<le> length xs" "length xs < c \<or> fits T (next_capacity c c)"
  shows "returns_or_throws vector_inv (map_sum id fst (Emplace T i args (vector_of xs c)))"
proof (rule returns_or_throws_fst)
  show "(\<exists>r. Emplace T i args (vector_of xs c) = Inr r) \<or>
        (\<exists>v. Emplace T i args (vector_of xs c) = Inl (Thrown v))"
    by (rule Emplace_defined[OF assms(2,1,3)])
next
  fix v' j assume r: "Emplace T i args (vector_of xs c) = Inr (v', j)"
  from Emplace_Inr[OF r assms(1)] next_capacity_gt[OF assms(1)]
  show "vector_inv v'" by (auto simp: vector_inv_vector_of)
next
  fix v' assume "Emplace T i args (vector_of xs c) = Inl (Thrown v')"
  from Emplace_Thrown[OF this assms(1)] show "vector_inv v'" by simp
qed

lemma Erase_outcome:
  assumes "length xs \<le> c" "i < length xs"
  shows "returns_or_throws vector_inv (map_sum id fst (Erase T i (vector_of xs c)))"
  using Erase_ok[OF assms(2,1), of T] assms
  by (simp add: returns_or_throws_def vector_inv_vector_of)

lemma PopBack_outcome:
  assumes "length xs \<le> c" "xs \<noteq> []"
  shows "returns_or_throws vector_inv (PopBack (vector_of xs c))"
  using PopBack_ok[OF assms(2,1)] assms(1)
  by (simp add: returns_or_throws_def vector_inv_vector_of)

lemma copy_assign_outcome:
  assumes "length xs \<le> c" "length ys \<le> c'"
    and "length ys \<le> length xs \<or> c < length ys \<and> fits T (length ys)"
  shows "returns_or_throws vector_inv (copy_assign T (vector_of xs c) (vector_of ys c'))"
proof (cases "length ys \<le> length xs")
  case True
  from copy_assign_shrink[OF True assms(1,2), of T] True assms(1) show ?thesis
    by (simp add: returns_or_throws_def vector_inv_vector_of)
next
  case False
  with assms(3) have 1: "c < length ys" and f: "fits T (length ys)" by simp_all
  from Vector_copy_defined[OF assms(2) f] show ?thesis
  proof
    assume "Vector_copy T (vector_of ys c') = Inr (vector_of ys (length ys))"
    with 1 assms show ?thesis
      by (simp add: copy_assign_realloc returns_or_throws_def vector_inv_vector_of)
  next
    assume "Vector_copy T (vector_of ys c') = Inl (Thrown ())"
    with 1 assms show ?thesis
      by (simp add: copy_assign_realloc returns_or_throws_def vector_inv_vector_of)
  qed
qed

section \<open>The three instantiations\<close>

lemma nothrow_int_traits: "nothrow int_traits"
  by (simp add: nothrow_def int_traits_def)

lemma allocates_int_traits: "n * 4 < 2 ^ 64 \<Longrightarrow> allocates int_traits n"
  by (simp add: allocates_def fits_def int_traits_def)

lemma allocates_throwing_traits: "n * 4 < 2 ^ 64 \<Longrightarrow> allocates throwing_traits n"
  by (simp add: allocates_def fits_def throwing_traits_def)

lemma allocates_move_only_traits: "n * 4 < 2 ^ 64 \<Longrightarrow> allocates move_only_traits n"
  by (simp add: allocates_def fits_def move_only_traits_def)

text \<open>\<open>2 ^ 62\<close> elements of four bytes: the byte count wraps to 0.\<close>

lemma RawMemory_sized_int_wrap:
  "RawMemory_sized int_traits (2 ^ 62) = Some \<lparr>buffer_m = [], capacity_m = 2 ^ 62\<rparr>"
  by (simp add: RawMemory_sized_def Allocate_def int_traits_def)

section \<open>Copy assignment\<close>

text \<open>
  Claim C1 says that after \<open>target = source\<close> the target has the source's length and
  elements.  This holds when the source is longer than the target's capacity
  (\<open>copy_assign_realloc\<close>) and when it is not longer than the target
  (\<open>copy_assign_shrink\<close>).  When the source is longer than the target but fits its capacity,
  line 128 of the source copy-constructs the new elements from the target's own
  uninitialised slots instead of the source's elements (\<open>copy_assign_in_place_longer\<close>).
  For a target holding 1 in an allocation of 3 slots and the source 7, 8: the first
  element is assigned, then \<open>uninitialized_copy_n\<close> reads the target's slot 1, which holds
  no object.  At that moment the target holds 7, with length 1 and capacity 3.
\<close>

theorem copy_assign_in_place_longer_source:
  "copy_assign int_traits (vector_of [1] 3) (vector_of [7, 8] 2) =
     Inl (Undefined (vector_of [7] 3)) \<and>
   uninitialized_copy_n int_traits (block_of [7] 3) 1 1 (block_of [7] 3) 1 =
     Inl (Undefined (block_of [7] 3)) \<and>
   slot (block_of [7 :: int] 3) 1 = None"
  by code_simp

section \<open>Moves\<close>

text \<open>
  Claim C2, amended.  Move construction and move assignment are \<open>Swap\<close>s: they cannot fail
  and destroy no element (every slot of both allocations is kept as it is).  After move
  construction the receiver is what the source was (its storage, length and elements) and
  the source is the empty vector.  After move assignment the receiver is what the source
  was, and the source is what the receiver was: it is empty only if the receiver was.
\<close>

theorem move_adopts_storage:
  "fst (Vector_move source) = source \<and>
   snd (Vector_move source) = Vector_default \<and> Size (snd (Vector_move source)) = 0 \<and>
   Capacity (snd (Vector_move source)) = 0 \<and>
   fst (move_assign receiver source) = source \<and>
   snd (move_assign receiver source) = receiver \<and>
   slots (fst (move_assign receiver source)) = slots source \<and>
   slots (snd (move_assign receiver source)) = slots receiver"
  by (simp add: Vector_move_eq move_assign_eq Size_def Capacity_def Vector_default_def
      RawMemory_default_def)

text \<open>
  Claim C2 as stated: after move assignment the source has length 0.  It has the length
  of the receiver before the call.
\<close>

theorem move_assign_source_not_empty:
  "Size (snd (move_assign (vector_of [1 :: int] 1) (vector_of [2, 3] 2))) \<noteq> 0"
  by (simp add: move_assign_eq Size_def)

section \<open>Exception safety of the growing Emplace\<close>

text \<open>
  Claim C3, amended.  Let the vector be well formed and full, and let \<open>Emplace\<close> leave by
  an exception.  Then, for every element type, the vector has the length and the
  capacity it had before the call and is well formed, and the abandoned new block holds
  no live object when it is released (when \<open>operator new\<close> itself threw there is no new
  block and the vector is untouched).  If moreover the exception comes from constructing
  the new element (\<open>args = None\<close>), or \<open>T\<close> is copy-constructible or
  nothrow-move-constructible (relocation then copies, or its moves cannot throw), the
  vector is exactly what it was before the call: same slots, hence the same elements.
\<close>

theorem Emplace_growth_strong_guarantee:
  assumes inv: "vector_inv v" and full: "Size v = Capacity v"
    and thrown: "Emplace T i args v = Inl (Thrown v')"
  shows "Size v' = Size v \<and> Capacity v' = Capacity v \<and> vector_inv v' \<and>
         (args = None \<or> copy_constructible T \<or> nothrow_move_constructible T \<longrightarrow>
            v' = v \<and> elements v' = elements v) \<and>
         (RawMemory_sized T (if Size v = 0 then 1 else (Size v * 2) mod 2 ^ 64) = None \<longrightarrow>
            v' = v) \<and>
         (\<forall>new_data.
            RawMemory_sized T (if Size v = 0 then 1 else (Size v * 2) mod 2 ^ 64) = Some new_data \<longrightarrow>
            (\<exists>old new.
               Emplace_fill T i args (slots v) (Size v) new_data = Inl (Thrown (old, new)) \<and>
               v' = with_slots old v \<and> list_all (\<lambda>c. c = None) new))"
proof -
  from inv obtain xs c where v: "v = vector_of xs c" and c: "length xs \<le> c"
    by (rule vector_inv_cases)
  from full have l: "length xs = c" by (simp add: v Size_def)
  have nc: "(if Size v = 0 then 1 else (Size v * 2) mod 2 ^ 64) =
            (if c = 0 then 1 else (c * 2) mod 2 ^ 64)"
    using l by (simp add: v Size_def)
  from thrown have i: "i \<le> c" by (auto simp: v l Emplace_def split: if_splits)
  note t = Emplace_Thrown[OF thrown[unfolded v] c]
  show ?thesis
  proof (intro conjI impI allI)
    show "Size v' = Size v" "Capacity v' = Capacity v" "vector_inv v'"
      using t by (simp_all add: v Size_def)
  next
    assume "args = None \<or> copy_constructible T \<or> nothrow_move_constructible T"
    with t have "v' = vector_of xs c" by blast
    then show "v' = v" "elements v' = elements v" by (simp_all add: v)
  next
    assume "RawMemory_sized T (if Size v = 0 then 1 else (Size v * 2) mod 2 ^ 64) = None"
    from Emplace_full_bad_alloc[OF l this[unfolded nc] i, of args] thrown
    show "v' = v" by (simp add: v)
  next
    fix new_data
    assume "RawMemory_sized T (if Size v = 0 then 1 else (Size v * 2) mod 2 ^ 64) = Some new_data"
    note nd = this[unfolded nc]
    from RawMemory_sized_Some[OF nd] obtain k where
      ndr: "new_data = \<lparr>buffer_m = replicate (length (buffer_m new_data)) None,
                            capacity_m = k\<rparr>"
      by (cases new_data) simp
    from thrown obtain f where
      fill: "Emplace_fill T i args (block_of xs c) c new_data = Inl f"
      and m: "map_fault (\<lambda>(old, new). with_slots old (vector_of xs c)) f = Thrown v'"
      unfolding v Emplace_full_unfold[OF l nd]
      by (auto split: if_splits sum.splits prod.splits option.splits)
    from m obtain s d where f: "f = Thrown (s, d)" and v': "v' = with_slots s (vector_of xs c)"
      by (cases f) auto
    from fill f have "Emplace_fill T i args (block_of xs c) c
        \<lparr>buffer_m = replicate (length (buffer_m new_data)) None,
          capacity_m = k\<rparr> = Inl (Thrown (s, d))"
      using ndr by simp
    from Emplace_fill_Thrown[OF this] have "list_all (\<lambda>c. c = None) d" by simp
    with fill f v' show "\<exists>old new.
        Emplace_fill T i args (slots v) (Size v) new_data = Inl (Thrown (old, new)) \<and>
        v' = with_slots old v \<and> list_all (\<lambda>c. c = None) new"
      by (auto simp: v Size_def l)
  qed
qed

theorem Emplace_growth_strong_guarantee_witness:
  "vector_inv (vector_of [1, 13 :: int] 2) \<and>
   Size (vector_of [1, 13 :: int] 2) = Capacity (vector_of [1, 13 :: int] 2) \<and>
   copy_constructible throwing_traits \<and>
   RawMemory_sized throwing_traits 4 = Some \<lparr>buffer_m = replicate 4 None, capacity_m = 4\<rparr> \<and>
   Emplace throwing_traits 0 (Some 5) (vector_of [1, 13] 2) = Inl (Thrown (vector_of [1, 13] 2)) \<and>
   elements (vector_of [1, 13 :: int] 2) = [1, 13] \<and>
   (\<exists>old new.
      Emplace_fill throwing_traits 0 (Some 5) (slots (vector_of [1, 13] 2)) 2
        \<lparr>buffer_m = replicate 4 None, capacity_m = 4\<rparr> = Inl (Thrown (old, new)) \<and>
      vector_of [1, 13] 2 = with_slots old (vector_of [1, 13] 2) \<and>
      list_all (\<lambda>c. c = None) new)"
proof -
  let ?v = "vector_of [1, 13 :: int] 2"
  have inv: "vector_inv ?v" by (simp add: vector_inv_vector_of)
  have full: "Size ?v = Capacity ?v" by (simp add: Size_def)
  have cc: "copy_constructible throwing_traits" by (simp add: throwing_traits_def)
  have sz: "Size ?v = 2" by (simp add: Size_def)
  have nc: "(if Size ?v = 0 then 1 else (Size ?v * 2) mod 2 ^ 64) = 4" by (simp add: sz)
  have nd: "RawMemory_sized throwing_traits 4 = Some \<lparr>buffer_m = replicate 4 None, capacity_m = 4\<rparr>"
    by (simp add: RawMemory_sized_allocates allocates_throwing_traits)
  have fill: "Emplace_fill throwing_traits 0 (Some 5) (block_of [1, 13] 2) 2
      \<lparr>buffer_m = replicate 4 None, capacity_m = 4\<rparr> =
      Inl (Thrown (block_of [1, 13] 2, replicate 4 None))"
    by code_simp
  have thrown: "Emplace throwing_traits 0 (Some 5) ?v = Inl (Thrown ?v)"
    using Emplace_full_unfold[of "[1, 13 :: int]" 2 throwing_traits _ 0 "Some 5"] nd fill
    by (simp add: with_slots_def vector_of_def)
  from Emplace_growth_strong_guarantee[OF inv full thrown]
  have "\<forall>new_data. RawMemory_sized throwing_traits
            (if Size ?v = 0 then 1 else (Size ?v * 2) mod 2 ^ 64) = Some new_data \<longrightarrow>
      (\<exists>old new.
         Emplace_fill throwing_traits 0 (Some 5) (slots ?v) (Size ?v) new_data
           = Inl (Thrown (old, new)) \<and> ?v = with_slots old ?v \<and> list_all (\<lambda>c. c = None) new)"
    by blast
  note st = this[unfolded nc, unfolded sz, rule_format, OF nd]
  show ?thesis using st inv full cc thrown nd by simp
qed

text \<open>
  Claim C3 as stated covers every element type.  For a move-only type whose move
  constructor may throw, \<open>CopyMoveNElements\<close> moves; when the move of the second element
  throws, the first element of the old storage has already been moved from.
\<close>

theorem Emplace_growth_move_only_throws:
  "Size (vector_of [1, 13 :: int] 2) = Capacity (vector_of [1, 13 :: int] 2) \<and>
   Emplace move_only_traits 2 (Some 5) (vector_of [1, 13] 2) = Inl (Thrown (vector_of [0, 13] 2)) \<and>
   elements (vector_of [0, 13 :: int] 2) \<noteq> elements (vector_of [1, 13 :: int] 2)"
proof -
  have nd: "RawMemory_sized move_only_traits 4 = Some \<lparr>buffer_m = replicate 4 None, capacity_m = 4\<rparr>"
    by (simp add: RawMemory_sized_allocates allocates_move_only_traits)
  have fill: "Emplace_fill move_only_traits 2 (Some 5) (block_of [1, 13] 2) 2
      \<lparr>buffer_m = replicate 4 None, capacity_m = 4\<rparr> =
      Inl (Thrown (block_of [0, 13] 2, replicate 4 None))"
    by code_simp
  have "Emplace move_only_traits 2 (Some 5) (vector_of [1, 13] 2) = Inl (Thrown (vector_of [0, 13] 2))"
    using Emplace_full_unfold[of "[1, 13 :: int]" 2 move_only_traits _ 2 "Some 5"] nd fill
    by (simp add: with_slots_def vector_of_def)
  then show ?thesis by (simp add: Size_def)
qed

section \<open>Growth\<close>

text \<open>
  Claim C4.  An insertion into a well-formed vector whose length equals its capacity
  returns, when it returns, a vector of capacity 1 if the length was 0 and of twice the
  length otherwise; it returns when no constructor of \<open>T\<close> throws and the new block is
  allocated.  Consequently, when no constructor of \<open>T\<close> throws and the blocks of 1, 2,
  4, ... elements below \<open>2 N\<close> are allocated, appending the \<open>N\<close> values of a list to an
  empty vector returns a vector of length \<open>N\<close> holding these values, of capacity 0 if
  \<open>N = 0\<close> and otherwise of the first power of two that is at least \<open>N\<close> (the power of
  two \<open>c\<close> with \<open>N \<le> c < 2 N\<close>); as this holds for every \<open>N\<close>, the capacities met on the
  way are 0, 1, 2, 4, 8, ...
\<close>

theorem growth_doubles_capacity:
  "(vector_inv v \<and> Size v = Capacity v \<and> i \<le> Size v \<longrightarrow>
      (\<forall>r. Emplace T i args v = Inr r \<longrightarrow>
           Capacity (fst r) = (if Size v = 0 then 1 else 2 * Size v)) \<and>
      (\<forall>v'. PushBack T x v = Inr v' \<longrightarrow>
           Capacity v' = (if Size v = 0 then 1 else 2 * Size v)) \<and>
      (nothrow T \<and> allocates T (if Size v = 0 then 1 else 2 * Size v) \<longrightarrow>
         (\<exists>v'. PushBack T x v = Inr v'))) \<and>
   (nothrow T \<and> (\<forall>k. 2 ^ k < 2 * length xs \<longrightarrow> allocates T (2 ^ k)) \<longrightarrow>
      (\<exists>v'. PushBack_all T xs Vector_default = Inr v' \<and> vector_inv v' \<and>
            Size v' = length xs \<and> elements v' = xs \<and>
            (xs = [] \<longrightarrow> Capacity v' = 0) \<and>
            (xs \<noteq> [] \<longrightarrow>
               (\<exists>k. Capacity v' = 2 ^ k \<and> length xs \<le> 2 ^ k \<and> 2 ^ k < 2 * length xs))))"
proof (intro conjI impI)
  assume a: "vector_inv v \<and> Size v = Capacity v \<and> i \<le> Size v"
  then obtain ys c where v: "v = vector_of ys c" and c: "length ys \<le> c"
    by (metis vector_inv_cases)
  from a have full: "length ys = c" by (simp add: v Size_def)
  have nc: "next_capacity (length ys) c = (if Size v = 0 then 1 else 2 * Size v)"
    using full by (simp add: next_capacity_def v Size_def)
  show "\<forall>r. Emplace T i args v = Inr r \<longrightarrow>
           Capacity (fst r) = (if Size v = 0 then 1 else 2 * Size v)"
  proof (intro allI impI)
    fix r assume "Emplace T i args v = Inr r"
    from Emplace_Inr[OF this[unfolded v] c] nc
    show "Capacity (fst r) = (if Size v = 0 then 1 else 2 * Size v)" by auto
  qed
  show "\<forall>v'. PushBack T x v = Inr v' \<longrightarrow>
           Capacity v' = (if Size v = 0 then 1 else 2 * Size v)"
  proof (intro allI impI)
    fix v' assume "PushBack T x v = Inr v'"
    then obtain r where "Emplace T (length ys) (copy_construct T x) (vector_of ys c) = Inr r"
      and "v' = fst r"
      by (cases "Emplace T (length ys) (copy_construct T x) (vector_of ys c)")
         (auto simp: PushBack_def EmplaceBack_def v)
    with Emplace_Inr[OF this(1) c] nc
    show "Capacity v' = (if Size v = 0 then 1 else 2 * Size v)" by auto
  qed
  show "\<exists>v'. PushBack T x v = Inr v'"
    if "nothrow T \<and> allocates T (if Size v = 0 then 1 else 2 * Size v)"
  proof -
    from that nc full have "length ys = c \<longrightarrow> allocates T (next_capacity c c)" by simp
    from PushBack_ok[OF _ c this, of x] that show ?thesis by (simp add: v)
  qed
next
  assume "nothrow T \<and> (\<forall>k. 2 ^ k < 2 * length xs \<longrightarrow> allocates T (2 ^ k))"
  then have nt: "nothrow T" and al: "\<forall>k. 2 ^ k < 2 * (length ([] :: 'a list) + length xs) \<longrightarrow> allocates T (2 ^ k)"
    by simp_all
  let ?v = "vector_of xs (capacity_after (length xs))"
  have "PushBack_all T xs Vector_default = Inr ?v"
    using PushBack_all_ok[OF nt al] by (simp add: Vector_default_eq)
  moreover have "vector_inv ?v" by (simp add: vector_inv_vector_of capacity_after_ge)
  moreover have "\<exists>k. Capacity ?v = 2 ^ k \<and> length xs \<le> 2 ^ k \<and> 2 ^ k < 2 * length xs" if "xs \<noteq> []"
    using capacity_after_power[of "length xs"] that by simp
  ultimately show "\<exists>v'. PushBack_all T xs Vector_default = Inr v' \<and> vector_inv v' \<and>
            Size v' = length xs \<and> elements v' = xs \<and>
            (xs = [] \<longrightarrow> Capacity v' = 0) \<and>
            (xs \<noteq> [] \<longrightarrow>
               (\<exists>k. Capacity v' = 2 ^ k \<and> length xs \<le> 2 ^ k \<and> 2 ^ k < 2 * length xs))"
    by (intro exI[of _ ?v]) (simp add: Size_def)
qed

theorem growth_doubles_capacity_witness:
  "vector_inv (vector_of [1, 2 :: int] 2) \<and> Size (vector_of [1, 2 :: int] 2) = Capacity (vector_of [1, 2 :: int] 2) \<and>
   nothrow int_traits \<and>
   allocates int_traits 1 \<and> allocates int_traits 2 \<and> allocates int_traits 4 \<and>
   (\<exists>v'. PushBack int_traits 3 (vector_of [1, 2] 2) = Inr v' \<and> Capacity v' = 4) \<and>
   (\<exists>v'. PushBack_all int_traits [1, 2, 3] Vector_default = Inr v' \<and> Size v' = 3 \<and>
         elements v' = [1, 2, 3] \<and> 3 \<le> Capacity v' \<and> Capacity v' < 6)"
proof -
  have inv: "vector_inv (vector_of [1, 2 :: int] 2)" by (simp add: vector_inv_vector_of)
  have full: "Size (vector_of [1, 2 :: int] 2) = Capacity (vector_of [1, 2 :: int] 2)"
    by (simp add: Size_def)
  have al4: "allocates int_traits 1" "allocates int_traits 2" "allocates int_traits 4"
    by (simp_all add: allocates_int_traits)
  have al: "\<forall>k. 2 ^ k < 2 * length [1, 2, 3 :: int] \<longrightarrow> allocates int_traits (2 ^ k)"
  proof (intro allI impI)
    fix k :: nat assume "2 ^ k < 2 * length [1, 2, 3 :: int]"
    then have "(2 :: nat) ^ k < 6" by simp
    then have "(2 :: nat) ^ k * 4 < 2 ^ 64" by simp
    then show "allocates int_traits (2 ^ k)" by (rule allocates_int_traits)
  qed
  note t1 = growth_doubles_capacity[where v = "vector_of [1, 2 :: int] 2" and i = 2
      and T = int_traits and x = 3 and xs = "[1, 2, 3]"]
  from t1 inv full nothrow_int_traits al4(3)
  have "(\<forall>v'. PushBack int_traits 3 (vector_of [1, 2] 2) = Inr v' \<longrightarrow> Capacity v' = 4) \<and>
        (\<exists>v'. PushBack int_traits 3 (vector_of [1, 2] 2) = Inr v')"
    by (simp add: Size_def)
  then have "\<exists>v'. PushBack int_traits 3 (vector_of [1, 2] 2) = Inr v' \<and> Capacity v' = 4"
    by blast
  moreover from t1 nothrow_int_traits al
  have "\<exists>v'. PushBack_all int_traits [1, 2, 3] Vector_default = Inr v' \<and>
         Size v' = length [1, 2, 3 :: int] \<and> elements v' = [1, 2, 3] \<and>
         (\<exists>k. Capacity v' = 2 ^ k \<and> length [1, 2, 3 :: int] \<le> 2 ^ k \<and> 2 ^ k < 2 * length [1, 2, 3 :: int])"
    by blast
  then have "\<exists>v'. PushBack_all int_traits [1, 2, 3] Vector_default = Inr v' \<and> Size v' = 3 \<and>
         elements v' = [1, 2, 3] \<and> 3 \<le> Capacity v' \<and> Capacity v' < 6"
    by auto
  ultimately show ?thesis using inv full nothrow_int_traits al4 by blast
qed

section \<open>Emplace and Insert\<close>

text \<open>
  Claim C5.  On a well-formed vector and for a position \<open>i\<close> in \<open>[begin, end]\<close>, every normal
  return of \<open>Emplace\<close> (with a successfully constructed value \<open>y\<close>) and of \<open>Insert\<close> leaves
  \<open>y\<close> exactly at index \<open>i\<close>, the elements before \<open>i\<close> where they were, each element
  previously at \<open>j \<ge> i\<close> at \<open>j + 1\<close>, the length increased by one, and returns the
  iterator \<open>begin() + i\<close>.  The call returns normally when no constructor of \<open>T\<close> throws
  and, if the storage has to grow, the new block is allocated.
\<close>

theorem Emplace_inserts_at_position:
  assumes "vector_inv v" and "i \<le> Size v"
  shows "(\<forall>r y. Emplace T i (Some y) v = Inr r \<or> Insert T i y v = Inr r \<or>
               Insert_rvalue T i y v = Inr r \<longrightarrow>
            snd r = i \<and> vector_inv (fst r) \<and> Size (fst r) = Size v + 1 \<and>
            elements (fst r) = take i (elements v) @ y # drop i (elements v) \<and>
            elements (fst r) ! i = y \<and>
            (\<forall>j<i. elements (fst r) ! j = elements v ! j) \<and>
            (\<forall>j. i \<le> j \<and> j < Size v \<longrightarrow> elements (fst r) ! (j + 1) = elements v ! j)) \<and>
         (nothrow T \<and> can_grow T v \<longrightarrow>
            (\<exists>r. Emplace T i (Some y) v = Inr r \<and> Insert T i y v = Inr r \<and>
                 Insert_rvalue T i y v = Inr r))"
proof -
  from assms(1) obtain xs c where v: "v = vector_of xs c" and c: "length xs \<le> c"
    by (rule vector_inv_cases)
  have ev: "elements v = xs" and sv: "Size v = length xs" by (simp_all add: v Size_def)
  from assms(2) have i: "i \<le> length xs" by (simp add: sv)
  have post: "snd r = i \<and> vector_inv (fst r) \<and> Size (fst r) = length xs + 1 \<and>
               elements (fst r) = take i xs @ y # drop i xs \<and>
               elements (fst r) ! i = y \<and>
               (\<forall>j<i. elements (fst r) ! j = xs ! j) \<and>
               (\<forall>j. i \<le> j \<and> j < length xs \<longrightarrow> elements (fst r) ! (j + 1) = xs ! j)"
    if r: "Emplace T i (Some y) (vector_of xs c) = Inr r" for r y
  proof -
    from Emplace_Inr[OF r c]
    have res: "r = (vector_of (take i xs @ y # drop i xs) (next_capacity (length xs) c), i)"
      by simp
    have "length xs < next_capacity (length xs) c" using c by (simp add: next_capacity_def)
    then have "vector_inv (fst r)" using i by (simp add: res vector_inv_vector_of)
    moreover have "elements (fst r) = take i xs @ y # drop i xs" by (simp add: res)
    moreover have "(take i xs @ y # drop i xs) ! i = y" using i by (simp add: nth_append)
    moreover have "\<forall>j<i. (take i xs @ y # drop i xs) ! j = xs ! j" using i by (simp add: nth_append)
    moreover have "\<forall>j. i \<le> j \<and> j < length xs \<longrightarrow> (take i xs @ y # drop i xs) ! (j + 1) = xs ! j"
      using i by (auto simp: nth_append min_def Suc_diff_le)
    moreover have "snd r = i" "Size (fst r) = length xs + 1" using i by (simp_all add: res Size_def)
    ultimately show ?thesis by simp
  qed
  have em: "Emplace T i (Some y) (vector_of xs c) = Inr r"
    if "Emplace T i (Some y) v = Inr r \<or> Insert T i y v = Inr r \<or> Insert_rvalue T i y v = Inr r"
    for r y
  proof -
    have "Emplace T i None v \<noteq> Inr r"
      using Emplace_Inr[of T i None xs c r] c by (auto simp: v)
    moreover have "copy_construct T y = None \<or> copy_construct T y = Some y"
      "move_construct T y = None \<or> move_construct T y = Some y"
      by (simp_all add: copy_construct_def move_construct_def)
    ultimately show ?thesis using that unfolding Insert_def Insert_rvalue_def v by metis
  qed
  have ok: "Emplace T i (Some y) v = Inr r \<and> Insert T i y v = Inr r \<and> Insert_rvalue T i y v = Inr r"
    if "nothrow T \<and> can_grow T v"
      and "r = (vector_of (take i xs @ y # drop i xs) (next_capacity (length xs) c), i)"
    for r
  proof -
    from that(1) have nt: "nothrow T"
      and "length xs = c \<longrightarrow> allocates T (next_capacity c c)"
      by (auto simp: can_grow_def v Size_def next_capacity_def)
    from Emplace_ok[OF nt i c this(2), of y] that(2) nt show ?thesis
      by (simp add: v Insert_def Insert_rvalue_def copy_construct_nothrow move_construct_nothrow)
  qed
  show ?thesis unfolding ev sv using post[OF em] ok by blast
qed


theorem Emplace_inserts_at_position_witness:
  "vector_inv (vector_of [1, 2, 3 :: int] 4) \<and> 1 \<le> Size (vector_of [1, 2, 3 :: int] 4) \<and>
   nothrow int_traits \<and> can_grow int_traits (vector_of [1, 2, 3] 4) \<and>
   (\<exists>r. Insert int_traits 1 9 (vector_of [1, 2, 3] 4) = Inr r \<and> snd r = 1 \<and>
        vector_inv (fst r) \<and> elements (fst r) = [1, 9, 2, 3] \<and> Size (fst r) = 4)"
proof -
  have inv: "vector_inv (vector_of [1, 2, 3 :: int] 4)" by (simp add: vector_inv_vector_of)
  have i: "1 \<le> Size (vector_of [1, 2, 3 :: int] 4)" by (simp add: Size_def)
  have g: "can_grow int_traits (vector_of [1, 2, 3] 4)" by (simp add: can_grow_def Size_def)
  from Emplace_inserts_at_position[OF inv i, where T = int_traits and y = 9]
  show ?thesis using inv i nothrow_int_traits g by (auto simp: Size_def)
qed

section \<open>Erase\<close>

text \<open>
  Claim C6.  On a well-formed vector and for a position \<open>i\<close> strictly before the end,
  \<open>Erase\<close> returns normally, removes exactly the element at \<open>i\<close> (the elements before \<open>i\<close>
  stay, each later element moves one slot to the front), decreases the length by one,
  keeps the capacity and returns the iterator \<open>begin() + i\<close>, which now points to the
  element that followed the erased one.
\<close>

theorem Erase_removes_position:
  assumes "vector_inv v" and "i < Size v"
  shows "\<exists>v'. Erase T i v = Inr (v', i) \<and> vector_inv v' \<and>
           Size v' = Size v - 1 \<and> Capacity v' = Capacity v \<and>
           elements v' = take i (elements v) @ drop (i + 1) (elements v) \<and>
           (\<forall>j<i. elements v' ! j = elements v ! j) \<and>
           (\<forall>j. i \<le> j \<and> j < Size v - 1 \<longrightarrow> elements v' ! j = elements v ! (j + 1))"
proof -
  from assms(1) obtain xs c where v: "v = vector_of xs c" and c: "length xs \<le> c"
    by (rule vector_inv_cases)
  have ev: "elements v = xs" and sv: "Size v = length xs" and cv: "Capacity v = c"
    by (simp_all add: v Size_def)
  from assms(2) have i: "i < length xs" by (simp add: sv)
  let ?ys = "take i xs @ drop (Suc i) xs"
  have e: "Erase T i v = Inr (vector_of ?ys c, i)"
    using Erase_ok[OF i c] by (simp add: v)
  moreover have "vector_inv (vector_of ?ys c)" using c by (simp add: vector_inv_vector_of)
  moreover have "Size (vector_of ?ys c) = length xs - 1" using i by (simp add: Size_def)
  moreover have "\<forall>j<i. ?ys ! j = xs ! j" using i by (simp add: nth_append)
  moreover have "\<forall>j. i \<le> j \<and> j < length xs - 1 \<longrightarrow> ?ys ! j = xs ! (j + 1)"
    using i by (auto simp: nth_append min_def)
  ultimately show ?thesis unfolding ev sv cv by simp
qed

theorem Erase_removes_position_witness:
  "vector_inv (vector_of [1, 9, 2, 3 :: int] 4) \<and> 0 < Size (vector_of [1, 9, 2, 3 :: int] 4) \<and>
   (\<exists>v'. Erase int_traits 0 (vector_of [1, 9, 2, 3] 4) = Inr (v', 0) \<and>
         elements v' = [9, 2, 3] \<and> Size v' = 3 \<and> Capacity v' = 4)"
proof -
  have inv: "vector_inv (vector_of [1, 9, 2, 3 :: int] 4)" by (simp add: vector_inv_vector_of)
  have i: "0 < Size (vector_of [1, 9, 2, 3 :: int] 4)" by (simp add: Size_def)
  from Erase_removes_position[OF inv i, where T = int_traits]
  show ?thesis using inv i by (auto simp: Size_def)
qed

section \<open>Resize\<close>




section \<open>Reserve\<close>




section \<open>The invariant\<close>




section \<open>Capacity is monotone\<close>

text \<open>
  Claim C10.  The capacity of the vector that \<open>Reserve\<close>, \<open>Resize\<close> (also to a smaller
  length), \<open>Emplace\<close>, \<open>EmplaceBack\<close>, \<open>Insert\<close>, \<open>PushBack\<close>, \<open>Erase\<close>, \<open>PopBack\<close> or copy
  assignment leaves behind is at least the capacity before the call.  This holds for
  every vector and every argument, and in every outcome: after a normal return, after
  an exception, and also where an assertion fails or the behaviour becomes undefined
  (the capacity is then the one recorded at that moment), in particular on the path of
  copy assignment whose source is longer than the target and fits its capacity.
\<close>

theorem capacity_never_decreases:
  "Capacity a \<le> Capacity (left_by (Reserve T n a)) \<and>
   Capacity a \<le> Capacity (left_by (Resize T n a)) \<and>
   Capacity a \<le> Capacity (left_by (map_sum id fst (Emplace T i args a))) \<and>
   Capacity a \<le> Capacity (left_by (map_sum id fst (EmplaceBack T args a))) \<and>
   Capacity a \<le> Capacity (left_by (map_sum id fst (Insert T i x a))) \<and>
   Capacity a \<le> Capacity (left_by (map_sum id fst (Insert_rvalue T i x a))) \<and>
   Capacity a \<le> Capacity (left_by (PushBack T x a)) \<and>
   Capacity a \<le> Capacity (left_by (PushBack_rvalue T x a)) \<and>
   Capacity a \<le> Capacity (left_by (map_sum id fst (Erase T i a))) \<and>
   Capacity a \<le> Capacity (left_by (PopBack a)) \<and>
   Capacity a \<le> Capacity (left_by (copy_assign T a b))"
proof (intro conjI)
  show "Capacity a \<le> Capacity (left_by (Reserve T n a))" by (rule Reserve_capacity)
  show "Capacity a \<le> Capacity (left_by (Resize T n a))" by (rule Resize_capacity)
  show "Capacity a \<le> Capacity (left_by (map_sum id fst (Emplace T i args a)))"
    by (rule Emplace_capacity)
  show "Capacity a \<le> Capacity (left_by (map_sum id fst (EmplaceBack T args a)))"
    unfolding EmplaceBack_def by (rule Emplace_capacity)
  show "Capacity a \<le> Capacity (left_by (map_sum id fst (Insert T i x a)))"
    unfolding Insert_def by (rule Emplace_capacity)
  show "Capacity a \<le> Capacity (left_by (map_sum id fst (Insert_rvalue T i x a)))"
    unfolding Insert_rvalue_def by (rule Emplace_capacity)
  show "Capacity a \<le> Capacity (left_by (PushBack T x a))"
    unfolding PushBack_def EmplaceBack_def by (rule Emplace_capacity)
  show "Capacity a \<le> Capacity (left_by (PushBack_rvalue T x a))"
    unfolding PushBack_rvalue_def EmplaceBack_def by (rule Emplace_capacity)
  show "Capacity a \<le> Capacity (left_by (map_sum id fst (Erase T i a)))"
    by (rule Erase_capacity)
  show "Capacity a \<le> Capacity (left_by (PopBack a))" by (rule PopBack_capacity)
  show "Capacity a \<le> Capacity (left_by (copy_assign T a b))" by (rule copy_assign_capacity)
qed

end
